theory Spec2Isabelle
  imports Main "HOL-Library.Word" "HOL-Library.Multiset"
begin

unbundle bit_operations_syntax

section \<open>Failures\<close>

text \<open>
  The library reports failures by throwing one of three standard exception
  classes, each with a message.  An access to a \<open>std::vector\<close> outside its
  bounds is undefined behaviour in C++; the model stops there with
  \<open>out_of_bounds\<close>, which is not an exception of the library.
\<close>

datatype error =
    invalid_argument string
  | domain_error string
  | out_of_range string
  | out_of_bounds

text \<open>The class of the exception that a failure throws, if it throws one.\<close>

datatype exception_class = std_invalid_argument | std_domain_error | std_out_of_range

fun exception_class_of :: "error \<Rightarrow> exception_class option" where
  "exception_class_of (invalid_argument m) = Some std_invalid_argument"
| "exception_class_of (domain_error m) = Some std_domain_error"
| "exception_class_of (out_of_range m) = Some std_out_of_range"
| "exception_class_of out_of_bounds = None"

definition msg_capacity_zero :: string where
  "msg_capacity_zero = ''Cannot explicitly create a binary_set with capacity 0.''"

definition msg_domain :: string where
  "msg_domain = ''This binary set has a capacity of 0.''"

definition msg_range :: string where
  "msg_range = ''Specified element is outside of the possible range for this binary_set.''"

definition msg_same_capacity :: string where
  "msg_same_capacity = ''The two binary_set don't have the same capacity.''"

definition msg_unexpected_capacity :: string where
  "msg_unexpected_capacity = ''The binary_set has an unexpected capacity.''"

section \<open>The class \<open>binary_set\<close>\<close>

text \<open>
  The three data members \<open>capacity_\<close> (\<open>unsigned int\<close>), \<open>size_\<close>
  (\<open>std::size_t\<close>, 64 bits) and \<open>set_\<close> (\<open>std::vector<unsigned char>\<close>).
  A name cannot end in an underscore here, hence the suffix \<open>fld\<close>.
\<close>

record binary_set =
  capacity_fld :: "32 word"
  size_fld :: "64 word"
  set_fld :: "8 word list"

text \<open>\<open>binary_set() noexcept = default\<close>: the member initialisers.\<close>

definition binary_set_default :: binary_set where
  "binary_set_default = \<lparr>capacity_fld = 0, size_fld = 0, set_fld = []\<rparr>"

definition capacity :: "binary_set \<Rightarrow> 32 word" where
  "capacity s = capacity_fld s"

definition size_of :: "binary_set \<Rightarrow> 64 word" where
  "size_of s = size_fld s"

text \<open>
  \<open>static_cast<unsigned char>((1u << (capacity_ % 8)) - 1)\<close>, computed in
  \<open>unsigned int\<close> and then truncated.
\<close>

definition pad_mask :: "32 word \<Rightarrow> 8 word" where
  "pad_mask c = ucast (push_bit (unat (c mod 8)) (1 :: 32 word) - 1)"

text \<open>
  \<open>v[idx] &= m\<close> where \<open>idx\<close> is \<open>n - 1\<close> computed in \<open>std::size_t\<close>
  (so \<open>n = 0\<close> gives \<open>2^64 - 1\<close>).
\<close>

definition mask_last :: "8 word list \<Rightarrow> nat \<Rightarrow> 8 word \<Rightarrow> error + 8 word list" where
  "mask_last v n m =
     (let idx = (if n = 0 then 2 ^ 64 - 1 else n - 1)
      in if idx < length v then Inr (v[idx := (v ! idx) AND m]) else Inl out_of_bounds)"

text \<open>
  \<open>explicit binary_set(unsigned int capacity, bool fill = false)\<close>.  The number of
  bytes \<open>(capacity_ + 7) / 8\<close> is computed in \<open>unsigned int\<close> and wraps.
\<close>

definition binary_set_ctor :: "32 word \<Rightarrow> bool \<Rightarrow> error + binary_set" where
  "binary_set_ctor c fill =
     (if c = 0 then Inl (invalid_argument msg_capacity_zero)
      else
        let sz = (if fill then ucast c else 0);
            v = replicate (unat ((c + 7) div 8)) (if fill then ucast (NOT (0 :: 32 word)) else 0)
        in if fill \<and> c mod 8 \<noteq> 0
           then (case mask_last v (length v) (pad_mask c) of
                   Inl x \<Rightarrow> Inl x
                 | Inr v' \<Rightarrow> Inr \<lparr>capacity_fld = c, size_fld = sz, set_fld = v'\<rparr>)
           else Inr \<lparr>capacity_fld = c, size_fld = sz, set_fld = v\<rparr>)"

definition validate_element :: "binary_set \<Rightarrow> 32 word \<Rightarrow> error + unit" where
  "validate_element s element =
     (if capacity_fld s = 0 then Inl (domain_error msg_domain)
      else if element \<ge> capacity_fld s then Inl (out_of_range msg_range)
      else Inr ())"

definition validate_same_capacity :: "binary_set \<Rightarrow> binary_set \<Rightarrow> error + unit" where
  "validate_same_capacity s other =
     (if capacity_fld s \<noteq> capacity_fld other then Inl (invalid_argument msg_same_capacity)
      else Inr ())"

text \<open>
  \<open>contains(unsigned int)\<close>: the byte is promoted and tested against
  \<open>1u << (element % 8)\<close>.
\<close>

definition contains :: "binary_set \<Rightarrow> 32 word \<Rightarrow> error + bool" where
  "contains s element =
     (case validate_element s element of
        Inl x \<Rightarrow> Inl x
      | Inr _ \<Rightarrow>
          (let i = unat (element div 8)
           in if i < length (set_fld s)
              then Inr ((ucast (set_fld s ! i) AND push_bit (unat (element mod 8)) (1 :: 32 word)) \<noteq> 0)
              else Inl out_of_bounds))"

text \<open>
  The mutating members return the outcome of the call together with the object as the
  call leaves it, whether it returns or throws.
\<close>

definition add :: "binary_set \<Rightarrow> 32 word \<Rightarrow> (error + bool) \<times> binary_set" where
  "add s element =
     (case validate_element s element of
        Inl x \<Rightarrow> (Inl x, s)
      | Inr _ \<Rightarrow>
          (case contains s element of
             Inl x \<Rightarrow> (Inl x, s)
           | Inr True \<Rightarrow> (Inr False, s)
           | Inr False \<Rightarrow>
               (let i = unat (element div 8);
                    b = ucast ((ucast (set_fld s ! i) :: 32 word) OR push_bit (unat (element mod 8)) 1)
                in (Inr True, s\<lparr>set_fld := (set_fld s)[i := b], size_fld := size_fld s + 1\<rparr>))))"

definition remove :: "binary_set \<Rightarrow> 32 word \<Rightarrow> (error + bool) \<times> binary_set" where
  "remove s element =
     (case validate_element s element of
        Inl x \<Rightarrow> (Inl x, s)
      | Inr _ \<Rightarrow>
          (case contains s element of
             Inl x \<Rightarrow> (Inl x, s)
           | Inr False \<Rightarrow> (Inr False, s)
           | Inr True \<Rightarrow>
               (let i = unat (element div 8);
                    b = ucast ((ucast (set_fld s ! i) :: 32 word) AND NOT (push_bit (unat (element mod 8)) 1))
                in (Inr True, s\<lparr>set_fld := (set_fld s)[i := b], size_fld := size_fld s - 1\<rparr>))))"

definition clear :: "binary_set \<Rightarrow> binary_set" where
  "clear s = s\<lparr>set_fld := map (\<lambda>_. 0) (set_fld s), size_fld := 0\<rparr>"

definition fill :: "binary_set \<Rightarrow> (error + unit) \<times> binary_set" where
  "fill s =
     (let v = map (\<lambda>_. ucast (NOT (0 :: 32 word))) (set_fld s)
      in if capacity_fld s mod 8 \<noteq> 0 \<and> capacity_fld s \<noteq> 0
         then (case mask_last v (length v) (pad_mask (capacity_fld s)) of
                 Inl x \<Rightarrow> (Inl x, s\<lparr>set_fld := v\<rparr>)
               | Inr v' \<Rightarrow> (Inr (), s\<lparr>set_fld := v', size_fld := ucast (capacity_fld s)\<rparr>))
         else (Inr (), s\<lparr>set_fld := v, size_fld := ucast (capacity_fld s)\<rparr>))"

definition empty :: "binary_set \<Rightarrow> bool" where
  "empty s = list_all (\<lambda>byte. byte = 0) (set_fld s)"

text \<open>
  \<open>recalculate_size\<close>: Brian Kernighan's loop on each byte.  \<open>b - 1\<close> is computed
  after promotion to \<open>int\<close> with \<open>b \<ge> 1\<close>, so the truncated result is the
  8-bit one.
\<close>

function kernighan :: "8 word \<Rightarrow> 64 word \<Rightarrow> 64 word" where
  "kernighan b n = (if b \<noteq> 0 then kernighan (b AND (b - 1)) (n + 1) else n)"
  by pat_completeness auto
termination
proof (relation "measure (\<lambda>(b, n). unat b)")
  show "wf (measure (\<lambda>(b :: 8 word, n :: 64 word). unat b))"
    by simp
next
  fix b :: "8 word" and n :: "64 word"
  assume nz: "b \<noteq> 0"
  have "b AND (b - 1) \<le> b - 1"
    by (rule word_and_le1)
  then have "unat (b AND (b - 1)) \<le> unat (b - 1)"
    by (simp add: word_le_nat_alt)
  also have "unat (b - 1) < unat b"
    using nz by (rule measure_unat)
  finally show "((b AND (b - 1), n + 1), (b, n)) \<in> measure (\<lambda>(b, n). unat b)"
    by simp
qed

declare kernighan.simps [simp del]

definition recalculate_size :: "binary_set \<Rightarrow> binary_set" where
  "recalculate_size s = s\<lparr>size_fld := foldl (\<lambda>n byte. kernighan byte n) 0 (set_fld s)\<rparr>"

text \<open>
  The bytewise loops \<open>for (i = 0; i < set_.size(); ++i) dst[i] = f(dst[i], other.set_[i])\<close>:
  they read \<open>other.set_\<close> at every index of \<open>set_\<close>.
\<close>

definition bytewise :: "(8 word \<Rightarrow> 8 word \<Rightarrow> 8 word) \<Rightarrow> 8 word list \<Rightarrow> 8 word list \<Rightarrow> error + 8 word list" where
  "bytewise f v w = (if length w < length v then Inl out_of_bounds else Inr (map2 f v w))"

definition bin_op :: "(8 word \<Rightarrow> 8 word \<Rightarrow> 8 word) \<Rightarrow> binary_set \<Rightarrow> binary_set \<Rightarrow> error + binary_set" where
  "bin_op f s other =
     (case validate_same_capacity s other of
        Inl x \<Rightarrow> Inl x
      | Inr _ \<Rightarrow>
          (case bytewise f (set_fld s) (set_fld other) of
             Inl x \<Rightarrow> Inl x
           | Inr v \<Rightarrow> Inr (recalculate_size (s\<lparr>set_fld := v\<rparr>))))"

text \<open>
  The in-place loop writes into \<open>set_\<close> itself: when \<open>other.set_\<close> is shorter, the bytes
  before the out-of-bounds read are already overwritten, and the size is not recounted.
\<close>

definition bin_op_assign :: "(8 word \<Rightarrow> 8 word \<Rightarrow> 8 word) \<Rightarrow> binary_set \<Rightarrow> binary_set \<Rightarrow> (error + unit) \<times> binary_set" where
  "bin_op_assign f s other =
     (case validate_same_capacity s other of
        Inl x \<Rightarrow> (Inl x, s)
      | Inr _ \<Rightarrow>
          (case bytewise f (set_fld s) (set_fld other) of
             Inl x \<Rightarrow>
               (Inl x, s\<lparr>set_fld := map2 f (set_fld s) (set_fld other)
                                       @ drop (length (set_fld other)) (set_fld s)\<rparr>)
           | Inr v \<Rightarrow> (Inr (), recalculate_size (s\<lparr>set_fld := v\<rparr>))))"

text \<open>\<open>operator&\<close>, \<open>operator|\<close>, \<open>operator-\<close> and their in-place forms.\<close>

definition op_and :: "binary_set \<Rightarrow> binary_set \<Rightarrow> error + binary_set" where
  "op_and = bin_op (\<lambda>a b. a AND b)"

definition op_or :: "binary_set \<Rightarrow> binary_set \<Rightarrow> error + binary_set" where
  "op_or = bin_op (\<lambda>a b. a OR b)"

definition op_minus :: "binary_set \<Rightarrow> binary_set \<Rightarrow> error + binary_set" where
  "op_minus = bin_op (\<lambda>a b. a AND NOT b)"

definition op_and_assign :: "binary_set \<Rightarrow> binary_set \<Rightarrow> (error + unit) \<times> binary_set" where
  "op_and_assign = bin_op_assign (\<lambda>a b. a AND b)"

definition op_or_assign :: "binary_set \<Rightarrow> binary_set \<Rightarrow> (error + unit) \<times> binary_set" where
  "op_or_assign = bin_op_assign (\<lambda>a b. a OR b)"

definition op_minus_assign :: "binary_set \<Rightarrow> binary_set \<Rightarrow> (error + unit) \<times> binary_set" where
  "op_minus_assign = bin_op_assign (\<lambda>a b. a AND NOT b)"

text \<open>
  \<open>operator!\<close>: a new set \<open>result{capacity_}\<close> is constructed first, then written at
  every index of \<open>set_\<close>, masked at index \<open>set_.size() - 1\<close> and recounted.
\<close>

definition op_not :: "binary_set \<Rightarrow> error + binary_set" where
  "op_not s =
     (case binary_set_ctor (capacity_fld s) False of
        Inl x \<Rightarrow> Inl x
      | Inr result \<Rightarrow>
          (if length (set_fld result) < length (set_fld s) then Inl out_of_bounds
           else
             let v = map NOT (set_fld s) @ drop (length (set_fld s)) (set_fld result)
             in if capacity_fld s mod 8 \<noteq> 0 \<and> capacity_fld s \<noteq> 0
                then (case mask_last v (length (set_fld s)) (pad_mask (capacity_fld s)) of
                        Inl x \<Rightarrow> Inl x
                      | Inr v' \<Rightarrow> Inr (recalculate_size (result\<lparr>set_fld := v'\<rparr>)))
                else Inr (recalculate_size (result\<lparr>set_fld := v\<rparr>))))"

text \<open>\<open>operator==\<close> and \<open>operator!=\<close>.\<close>

definition op_eq :: "binary_set \<Rightarrow> binary_set \<Rightarrow> error + bool" where
  "op_eq s other =
     (case validate_same_capacity s other of
        Inl x \<Rightarrow> Inl x
      | Inr _ \<Rightarrow> Inr (set_fld s = set_fld other))"

definition op_neq :: "binary_set \<Rightarrow> binary_set \<Rightarrow> error + bool" where
  "op_neq s other =
     (case validate_same_capacity s other of
        Inl x \<Rightarrow> Inl x
      | Inr _ \<Rightarrow> Inr (set_fld s \<noteq> set_fld other))"

text \<open>
  \<open>intersects\<close> and \<open>contains(const binary_set &)\<close>: the loops over the indices of
  \<open>set_\<close> return at the first decisive byte and read \<open>other.set_\<close> at each index before.
\<close>

fun intersects_loop :: "8 word list \<Rightarrow> 8 word list \<Rightarrow> error + bool" where
  "intersects_loop [] w = Inr False"
| "intersects_loop (a # v) [] = Inl out_of_bounds"
| "intersects_loop (a # v) (b # w) = (if a AND b \<noteq> 0 then Inr True else intersects_loop v w)"

definition intersects :: "binary_set \<Rightarrow> binary_set \<Rightarrow> error + bool" where
  "intersects s other =
     (case validate_same_capacity s other of
        Inl x \<Rightarrow> Inl x
      | Inr _ \<Rightarrow> intersects_loop (set_fld s) (set_fld other))"

fun contains_loop :: "8 word list \<Rightarrow> 8 word list \<Rightarrow> error + bool" where
  "contains_loop [] w = Inr True"
| "contains_loop (a # v) [] = Inl out_of_bounds"
| "contains_loop (a # v) (b # w) = (if NOT a AND b \<noteq> 0 then Inr False else contains_loop v w)"

definition contains_set :: "binary_set \<Rightarrow> binary_set \<Rightarrow> error + bool" where
  "contains_set s other =
     (case validate_same_capacity s other of
        Inl x \<Rightarrow> Inl x
      | Inr _ \<Rightarrow> contains_loop (set_fld s) (set_fld other))"

section \<open>Iteration and \<open>sparse\<close>\<close>

text \<open>
  \<open>iterator::operator++\<close>: \<open>do ++current_pos_ while (current_pos_ < capacity &&
  !contains(current_pos_))\<close>.  The position is below the capacity when the operator is
  called, so the increment does not wrap.
\<close>

function advance :: "binary_set \<Rightarrow> nat \<Rightarrow> error + nat" where
  "advance s pos =
     (let p = pos + 1
      in if p < unat (capacity s)
         then (case contains s (of_nat p) of
                 Inl x \<Rightarrow> Inl x
               | Inr True \<Rightarrow> Inr p
               | Inr False \<Rightarrow> advance s p)
         else Inr p)"
  by pat_completeness auto
termination
  by (relation "measure (\<lambda>(s, pos). unat (capacity s) - pos)") auto

declare advance.simps [simp del]

text \<open>\<open>begin()\<close>: the constructor of the iterator at position 0.\<close>

definition begin_pos :: "binary_set \<Rightarrow> error + nat" where
  "begin_pos s =
     (if 0 < unat (capacity s)
      then (case contains s 0 of
              Inl x \<Rightarrow> Inl x
            | Inr True \<Rightarrow> Inr 0
            | Inr False \<Rightarrow> advance s 0)
      else Inr 0)"

lemma advance_greater: "advance s pos = Inr p \<Longrightarrow> pos < p"
proof (induction s pos rule: advance.induct)
  case (1 s pos)
  show ?case
  proof (cases "pos + 1 < unat (capacity s)")
    case False
    with "1.prems" show ?thesis
      by (subst (asm) advance.simps) (simp add: Let_def)
  next
    case True
    show ?thesis
    proof (cases "contains s (of_nat (pos + 1))")
      case (Inl x)
      with True "1.prems" show ?thesis
        by (subst (asm) advance.simps) (simp add: Let_def)
    next
      case (Inr b)
      show ?thesis
      proof (cases b)
        case True
        with \<open>pos + 1 < unat (capacity s)\<close> Inr "1.prems" show ?thesis
          by (subst (asm) advance.simps) (auto simp add: Let_def)
      next
        case False
        with \<open>pos + 1 < unat (capacity s)\<close> Inr "1.prems" have "advance s (pos + 1) = Inr p"
          by (subst (asm) advance.simps) (simp add: Let_def)
        with "1.IH" [OF refl \<open>pos + 1 < unat (capacity s)\<close> Inr] False have "pos + 1 < p"
          by simp
        then show ?thesis by simp
      qed
    qed
  qed
qed

text \<open>
  The range constructor \<open>std::vector<unsigned int>{begin(), end()}\<close>: push the
  position and advance until the position is the capacity.  The position never passes
  the capacity, so \<open>it != end\<close> is \<open>pos < capacity\<close>.
\<close>

function (sequential) collect :: "binary_set \<Rightarrow> nat \<Rightarrow> error + 32 word list" where
  "collect s pos =
     (if pos < unat (capacity s)
      then (case advance s pos of
              Inl x \<Rightarrow> Inl x
            | Inr p \<Rightarrow>
                (case collect s p of
                   Inl x \<Rightarrow> Inl x
                 | Inr r \<Rightarrow> Inr (of_nat pos # r)))
      else Inr [])"
  by pat_completeness auto
termination
proof (relation "measure (\<lambda>(s, pos). unat (capacity s) - pos)")
  show "wf (measure (\<lambda>(s, pos). unat (capacity s) - pos))"
    by simp
next
  fix s :: binary_set and pos p :: nat
  assume "pos < unat (capacity s)" and "advance s pos = Inr p"
  then show "((s, p), (s, pos)) \<in> measure (\<lambda>(s, pos). unat (capacity s) - pos)"
    using advance_greater [of s pos p] by simp
qed

declare collect.simps [simp del]

definition sparse :: "binary_set \<Rightarrow> error + 32 word list" where
  "sparse s =
     (if capacity_fld s = 0 then Inl (domain_error msg_domain)
      else (case begin_pos s of Inl x \<Rightarrow> Inl x | Inr p \<Rightarrow> collect s p))"

section \<open>The class \<open>bs_searcher\<close>\<close>

text \<open>
  \<open>struct treenode\<close>: the value list (\<open>values\<close> in the source, a reserved word
  here) and the two owned children (\<open>left\<close> for an absent
  element, \<open>right\<close> for a present one).  Ownership through \<open>std::unique_ptr\<close> makes
  the nodes a tree without sharing, so a node is a value.
\<close>

datatype treenode =
  treenode (node_values: "32 word list") (left: "treenode option") (right: "treenode option")

definition new_node :: treenode where
  "new_node = treenode [] None None"

record bs_searcher =
  root_fld :: treenode
  index_capacity_fld :: "32 word"

definition bs_searcher_ctor :: "32 word \<Rightarrow> bs_searcher" where
  "bs_searcher_ctor c = \<lparr>root_fld = new_node, index_capacity_fld = c\<rparr>"

definition validate_capacity :: "bs_searcher \<Rightarrow> binary_set \<Rightarrow> error + unit" where
  "validate_capacity sr bs =
     (if index_capacity_fld sr \<noteq> capacity bs then Inl (invalid_argument msg_unexpected_capacity)
      else Inr ())"

text \<open>\<open>operator[]\<close> of \<open>binary_set\<close>.\<close>

definition subscript :: "binary_set \<Rightarrow> 32 word \<Rightarrow> error + bool" where
  "subscript s element = contains s element"

definition get_child :: "treenode \<Rightarrow> bool \<Rightarrow> treenode option" where
  "get_child node is_right = (if is_right then right node else left node)"

definition set_child :: "treenode \<Rightarrow> bool \<Rightarrow> treenode option \<Rightarrow> treenode" where
  "set_child node is_right c =
     (if is_right then treenode (node_values node) (left node) c
      else treenode (node_values node) c (right node))"

text \<open>
  The loop of \<open>bs_searcher::add\<close> from level \<open>i\<close> at the node \<open>leaf\<close>, followed by
  the \<open>push_back\<close>.  The result is the subtree at \<open>leaf\<close> as the call leaves it:
  a child created before a failing read stays attached.
\<close>

function add_loop :: "binary_set \<Rightarrow> 32 word \<Rightarrow> nat \<Rightarrow> nat \<Rightarrow> treenode \<Rightarrow> (error + unit) \<times> treenode" where
  "add_loop bs v n i leaf =
     (if i < n
      then (case subscript bs (of_nat i) of
              Inl x \<Rightarrow> (Inl x, leaf)
            | Inr b \<Rightarrow>
                (let child = (case get_child leaf b of None \<Rightarrow> new_node | Some c \<Rightarrow> c);
                     (r, child') = add_loop bs v n (i + 1) child
                 in (r, set_child leaf b (Some child'))))
      else (Inr (), treenode (node_values leaf @ [v]) (left leaf) (right leaf)))"
  by pat_completeness auto
termination
  by (relation "measure (\<lambda>(bs, v, n, i, leaf). n - i)") auto

declare add_loop.simps [simp del]

definition searcher_add :: "bs_searcher \<Rightarrow> 32 word \<Rightarrow> binary_set \<Rightarrow> (error + unit) \<times> bs_searcher" where
  "searcher_add sr v bs =
     (case validate_capacity sr bs of
        Inl x \<Rightarrow> (Inl x, sr)
      | Inr _ \<Rightarrow>
          (let (r, t) = add_loop bs v (unat (index_capacity_fld sr)) 0 (root_fld sr)
           in (r, sr\<lparr>root_fld := t\<rparr>)))"

text \<open>
  The descent of \<open>bs_searcher::remove\<close>.  The vectors \<open>path\<close> and \<open>is_right_child\<close>
  grow together and are read from the back, so they are one stack of pairs whose head
  is the back of the vectors.  A null \<open>node\<close> is \<open>None\<close>.
\<close>

function descend :: "binary_set \<Rightarrow> nat \<Rightarrow> nat \<Rightarrow> treenode option \<Rightarrow> (treenode \<times> bool) list
    \<Rightarrow> error + (treenode option \<times> (treenode \<times> bool) list)" where
  "descend bs n i node path =
     (case node of
        None \<Rightarrow> Inr (None, path)
      | Some nd \<Rightarrow>
          (if i < n
           then (case subscript bs (of_nat i) of
                   Inl x \<Rightarrow> Inl x
                 | Inr b \<Rightarrow> descend bs n (i + 1) (get_child nd b) ((nd, b) # path))
           else Inr (Some nd, path)))"
  by pat_completeness auto
termination
  by (relation "measure (\<lambda>(bs, n, i, node, path). n - i)") auto

declare descend.simps [simp del]

text \<open>\<open>std::find\<close> as an offset from \<open>begin()\<close>; the length stands for \<open>end()\<close>.\<close>

fun find_pos :: "32 word list \<Rightarrow> 32 word \<Rightarrow> nat" where
  "find_pos [] x = 0"
| "find_pos (y # ys) x = (if y = x then 0 else Suc (find_pos ys x))"

text \<open>Overwrite with the last entry unless it is the last one, then \<open>pop_back\<close>.\<close>

definition swap_pop :: "32 word list \<Rightarrow> nat \<Rightarrow> 32 word list" where
  "swap_pop vs k = (if k \<noteq> length vs - 1 then butlast (vs[k := last vs]) else butlast vs)"

text \<open>
  The nodes on the stack are the parents as they were during the descent.  In C++ the
  change below them happens in place; here the changed child is put back into each
  parent.
\<close>

fun rebuild :: "treenode \<Rightarrow> (treenode \<times> bool) list \<Rightarrow> treenode" where
  "rebuild child [] = child"
| "rebuild child ((parent, is_right) # path) = rebuild (set_child parent is_right (Some child)) path"

text \<open>
  The pruning loop: the link of the parent to the current node is reset; the loop stops
  at a parent that has values or a child left, and ends at the root otherwise.
\<close>

fun prune :: "treenode \<Rightarrow> (treenode \<times> bool) list \<Rightarrow> treenode" where
  "prune node [] = node"
| "prune node ((parent, is_right) # path) =
     (let parent' = set_child parent is_right None
      in if node_values parent' \<noteq> [] \<or> left parent' \<noteq> None \<or> right parent' \<noteq> None
         then rebuild parent' path
         else prune parent' path)"

definition searcher_remove :: "bs_searcher \<Rightarrow> 32 word \<Rightarrow> binary_set \<Rightarrow> (error + bool) \<times> bs_searcher" where
  "searcher_remove sr v bs =
     (case validate_capacity sr bs of
        Inl x \<Rightarrow> (Inl x, sr)
      | Inr _ \<Rightarrow>
          (case descend bs (unat (index_capacity_fld sr)) 0 (Some (root_fld sr)) [] of
             Inl x \<Rightarrow> (Inl x, sr)
           | Inr (None, path) \<Rightarrow> (Inr False, sr)
           | Inr (Some node, path) \<Rightarrow>
               (let k = find_pos (node_values node) v
                in if k = length (node_values node) then (Inr False, sr)
                   else
                     let node' = treenode (swap_pop (node_values node) k) (left node) (right node)
                     in if node_values node' = [] \<and> left node' = None \<and> right node' = None
                        then (Inr True, sr\<lparr>root_fld := prune node' path\<rparr>)
                        else (Inr True, sr\<lparr>root_fld := rebuild node' path\<rparr>))))"

text \<open>
  \<open>find_subsets\<close>: the inner loop over \<open>current_level\<close> appends to \<open>next_level\<close>
  and reads \<open>bs[i]\<close> for each node; the outer loop runs while \<open>i < capacity_\<close> and the
  level is not empty.
\<close>

definition opt_list :: "treenode option \<Rightarrow> treenode list" where
  "opt_list c = (case c of None \<Rightarrow> [] | Some t \<Rightarrow> [t])"

fun level_step :: "binary_set \<Rightarrow> nat \<Rightarrow> treenode list \<Rightarrow> treenode list \<Rightarrow> error + treenode list" where
  "level_step bs i [] next_level = Inr next_level"
| "level_step bs i (node # rest) next_level =
     (case subscript bs (of_nat i) of
        Inl x \<Rightarrow> Inl x
      | Inr True \<Rightarrow> level_step bs i rest (next_level @ opt_list (left node) @ opt_list (right node))
      | Inr False \<Rightarrow> level_step bs i rest (next_level @ opt_list (left node)))"

function levels :: "binary_set \<Rightarrow> nat \<Rightarrow> nat \<Rightarrow> treenode list \<Rightarrow> error + treenode list" where
  "levels bs n i current_level =
     (if i < n \<and> current_level \<noteq> []
      then (case level_step bs i current_level [] of
              Inl x \<Rightarrow> Inl x
            | Inr next_level \<Rightarrow> levels bs n (i + 1) next_level)
      else Inr current_level)"
  by pat_completeness auto
termination
  by (relation "measure (\<lambda>(bs, n, i, current_level). n - i)") auto

declare levels.simps [simp del]

definition find_subsets :: "bs_searcher \<Rightarrow> binary_set \<Rightarrow> error + 32 word list" where
  "find_subsets sr bs =
     (case validate_capacity sr bs of
        Inl x \<Rightarrow> Inl x
      | Inr _ \<Rightarrow>
          (case levels bs (unat (index_capacity_fld sr)) 0 [root_fld sr] of
             Inl x \<Rightarrow> Inl x
           | Inr current_level \<Rightarrow> Inr (concat (map node_values current_level))))"

section \<open>Well-formed sets and sequences of operations\<close>

text \<open>The bit of position \<open>p\<close> in a byte vector.\<close>

definition bit_at :: "8 word list \<Rightarrow> nat \<Rightarrow> bool" where
  "bit_at v p = (p div 8 < length v \<and> bit (v ! (p div 8)) (p mod 8))"

text \<open>
  What every constructed set satisfies: the byte count the constructor computes, the
  cached size equal to the number of bits set, and no bit set at or beyond the capacity.
\<close>

definition consistent :: "binary_set \<Rightarrow> bool" where
  "consistent s =
     (length (set_fld s) = unat ((capacity_fld s + 7) div 8)
      \<and> unat (size_fld s) = length (filter (bit_at (set_fld s)) [0..<8 * length (set_fld s)])
      \<and> list_all (\<lambda>p. \<not> bit_at (set_fld s) p) [unat (capacity_fld s)..<8 * length (set_fld s)])"

text \<open>
  A well-formed set moreover has a byte for every element, which the constructor
  provides unless \<open>capacity + 7\<close> wraps (a capacity of at least \<open>2^32 - 7\<close>).
\<close>

definition well_formed :: "binary_set \<Rightarrow> bool" where
  "well_formed s = (consistent s \<and> unat (capacity_fld s) \<le> 8 * length (set_fld s))"

text \<open>
  The sets that the public interface produces.  A call that runs into an out-of-bounds
  access produces none.
\<close>

inductive reach :: "binary_set \<Rightarrow> bool" where
  reach_default: "reach binary_set_default"
| reach_ctor: "binary_set_ctor c f = Inr s \<Longrightarrow> reach s"
| reach_add: "reach s \<Longrightarrow> add s e = (r, s') \<Longrightarrow> r \<noteq> Inl out_of_bounds \<Longrightarrow> reach s'"
| reach_remove: "reach s \<Longrightarrow> remove s e = (r, s') \<Longrightarrow> r \<noteq> Inl out_of_bounds \<Longrightarrow> reach s'"
| reach_clear: "reach s \<Longrightarrow> reach (clear s)"
| reach_fill: "reach s \<Longrightarrow> fill s = (r, s') \<Longrightarrow> r \<noteq> Inl out_of_bounds \<Longrightarrow> reach s'"
| reach_and: "reach s \<Longrightarrow> reach other \<Longrightarrow> op_and s other = Inr s' \<Longrightarrow> reach s'"
| reach_or: "reach s \<Longrightarrow> reach other \<Longrightarrow> op_or s other = Inr s' \<Longrightarrow> reach s'"
| reach_minus: "reach s \<Longrightarrow> reach other \<Longrightarrow> op_minus s other = Inr s' \<Longrightarrow> reach s'"
| reach_and_assign: "reach s \<Longrightarrow> reach other \<Longrightarrow> op_and_assign s other = (r, s')
    \<Longrightarrow> r \<noteq> Inl out_of_bounds \<Longrightarrow> reach s'"
| reach_or_assign: "reach s \<Longrightarrow> reach other \<Longrightarrow> op_or_assign s other = (r, s')
    \<Longrightarrow> r \<noteq> Inl out_of_bounds \<Longrightarrow> reach s'"
| reach_minus_assign: "reach s \<Longrightarrow> reach other \<Longrightarrow> op_minus_assign s other = (r, s')
    \<Longrightarrow> r \<noteq> Inl out_of_bounds \<Longrightarrow> reach s'"
| reach_not: "reach s \<Longrightarrow> op_not s = Inr s' \<Longrightarrow> reach s'"

code_pred reach .

text \<open>The number of indices \<open>i\<close> in \<open>[0, c)\<close> for which \<open>contains(i)\<close> returns true.\<close>

definition count_contained :: "binary_set \<Rightarrow> nat" where
  "count_contained s =
     length (filter (\<lambda>i. contains s (of_nat i) = Inr True) [0..<unat (capacity s)])"

text \<open>Every element of \<open>s\<close> is an element of \<open>q\<close>.\<close>

definition subset_of :: "binary_set \<Rightarrow> binary_set \<Rightarrow> bool" where
  "subset_of s q =
     list_all (\<lambda>i. contains s (of_nat i) = Inr True \<longrightarrow> contains q (of_nat i) = Inr True)
       [0..<unat (capacity s)]"

text \<open>Sequences of calls on an index; a call that throws leaves what it leaves.\<close>

datatype index_op = Add "32 word" binary_set | Remove "32 word" binary_set

fun op_set :: "index_op \<Rightarrow> binary_set" where
  "op_set (Add v bs) = bs"
| "op_set (Remove v bs) = bs"

fun apply_op :: "bs_searcher \<Rightarrow> index_op \<Rightarrow> bs_searcher" where
  "apply_op sr (Add v bs) = snd (searcher_add sr v bs)"
| "apply_op sr (Remove v bs) = snd (searcher_remove sr v bs)"

definition run :: "bs_searcher \<Rightarrow> index_op list \<Rightarrow> bs_searcher" where
  "run sr ops = foldl apply_op sr ops"

text \<open>
  The stored pairs as the specification describes them: an insertion with a set of the
  index's capacity adds the pair, a removal takes one instance of the pair away.
\<close>

fun spec_apply :: "32 word \<Rightarrow> (32 word \<times> binary_set) multiset \<Rightarrow> index_op
    \<Rightarrow> (32 word \<times> binary_set) multiset" where
  "spec_apply c st (Add v bs) = (if capacity bs = c then st + {#(v, bs)#} else st)"
| "spec_apply c st (Remove v bs) = (if capacity bs = c then st - {#(v, bs)#} else st)"

definition spec_stored :: "32 word \<Rightarrow> index_op list \<Rightarrow> (32 word \<times> binary_set) multiset" where
  "spec_stored c ops = foldl (spec_apply c) {#} ops"

text \<open>A node without values and without children, and a tree without such a node below its root.\<close>

definition dead :: "treenode \<Rightarrow> bool" where
  "dead t = (node_values t = [] \<and> left t = None \<and> right t = None)"

fun pruned :: "treenode \<Rightarrow> bool" where
  "pruned (treenode vs l r) =
     ((case l of None \<Rightarrow> True | Some c \<Rightarrow> \<not> dead c \<and> pruned c)
      \<and> (case r of None \<Rightarrow> True | Some c \<Rightarrow> \<not> dead c \<and> pruned c))"

text \<open>The node at the end of a path of branches, if every child on the way exists.\<close>

fun walk :: "treenode option \<Rightarrow> bool list \<Rightarrow> treenode option" where
  "walk c [] = c"
| "walk None (b # k) = None"
| "walk (Some t) (b # k) = walk (get_child t b) k"

text \<open>The branches that a set takes: its membership at each level.\<close>

definition key_of :: "binary_set \<Rightarrow> bool list" where
  "key_of bs = map (\<lambda>i. contains bs (of_nat i) = Inr True) [0..<unat (capacity bs)]"

definition leaf_values :: "treenode \<Rightarrow> bool list \<Rightarrow> 32 word list" where
  "leaf_values t k = (case walk (Some t) k of None \<Rightarrow> [] | Some nd \<Rightarrow> node_values nd)"

section \<open>Paths in the tree\<close>

text \<open>The insertion along a list of branches, creating the missing nodes.\<close>

fun ins :: "bool list \<Rightarrow> 32 word \<Rightarrow> treenode \<Rightarrow> treenode" where
  "ins [] v t = treenode (node_values t @ [v]) (left t) (right t)"
| "ins (b # k) v t =
     set_child t b (Some (ins k v (case get_child t b of None \<Rightarrow> new_node | Some c \<Rightarrow> c)))"

text \<open>All pairs of a path and a value stored at the node of that path.\<close>

fun entries :: "treenode \<Rightarrow> (bool list \<times> 32 word) multiset" where
  "entries (treenode vs l r) =
     image_mset (Pair []) (mset vs)
     + (case l of None \<Rightarrow> {#} | Some c \<Rightarrow> image_mset (\<lambda>(k, v). (False # k, v)) (entries c))
     + (case r of None \<Rightarrow> {#} | Some c \<Rightarrow> image_mset (\<lambda>(k, v). (True # k, v)) (entries c))"

text \<open>The stack of parents that a descent along a list of branches leaves.\<close>

fun trail :: "treenode option \<Rightarrow> bool list \<Rightarrow> (treenode \<times> bool) list \<Rightarrow> (treenode \<times> bool) list" where
  "trail c [] path = path"
| "trail None (b # k) path = path"
| "trail (Some t) (b # k) path = trail (get_child t b) k ((t, b) # path)"

definition dirs :: "(treenode \<times> bool) list \<Rightarrow> bool list" where
  "dirs path = rev (map snd path)"

text \<open>The entries of the tree around the node on top of a stack of parents.\<close>

fun ctx_entries :: "(treenode \<times> bool) list \<Rightarrow> (bool list \<times> 32 word) multiset" where
  "ctx_entries [] = {#}"
| "ctx_entries ((parent, is_right) # path) =
     image_mset (\<lambda>(k, v). (dirs path @ k, v)) (entries (set_child parent is_right None))
     + ctx_entries path"

text \<open>The children that survive into the next level, and the levels of a query.\<close>

definition children :: "bool \<Rightarrow> treenode \<Rightarrow> treenode list" where
  "children q node = (if q then opt_list (left node) @ opt_list (right node) else opt_list (left node))"

fun frontier :: "bool list \<Rightarrow> treenode list \<Rightarrow> treenode list" where
  "frontier [] current_level = current_level"
| "frontier (q # qs) current_level = frontier qs (concat (map (children q) current_level))"

text \<open>The values stored under a path that takes a present branch only where the query does.\<close>

definition matches :: "bool list \<Rightarrow> treenode \<Rightarrow> 32 word multiset" where
  "matches q t = image_mset snd (filter_mset (\<lambda>(k, v). list_all2 (\<lambda>a b. a \<longrightarrow> b) k q) (entries t))"

text \<open>The entries below a child, with the branch to the child in front of each path.\<close>

definition sub_entries :: "bool \<Rightarrow> treenode option \<Rightarrow> (bool list \<times> 32 word) multiset" where
  "sub_entries b c = (case c of None \<Rightarrow> {#} | Some t \<Rightarrow> image_mset (\<lambda>(k, v). (b # k, v)) (entries t))"

text \<open>No dead node hangs off the parents of a stack, apart from the branch taken.\<close>

definition pruned_around :: "(treenode \<times> bool) list \<Rightarrow> bool" where
  "pruned_around path = list_all (\<lambda>(p, b). pruned (set_child p b None)) path"

text \<open>The value list of the leaf that a set leads to (empty when the leaf does not exist).\<close>

definition stored_at :: "bs_searcher \<Rightarrow> binary_set \<Rightarrow> 32 word list" where
  "stored_at sr bs = leaf_values (root_fld sr) (key_of bs)"

text \<open>
  The index agrees with a multiset of stored pairs: its entries are the pairs, each set
  replaced by its branches, and every stored set is well-formed and of the index's capacity.
\<close>

definition tracks :: "32 word \<Rightarrow> bs_searcher \<Rightarrow> (32 word \<times> binary_set) multiset \<Rightarrow> bool" where
  "tracks c sr st \<longleftrightarrow>
     index_capacity_fld sr = c
     \<and> entries (root_fld sr) = image_mset (\<lambda>(v, s). (key_of s, v)) st
     \<and> (\<forall>(v, s) \<in># st. well_formed s \<and> capacity s = c)"

section \<open>Sample data\<close>

text \<open>
  The sets \<open>{1}\<close>, \<open>{1, 3}\<close>, \<open>{1, 3, 5}\<close> and \<open>{1, 3, 4, 6}\<close> of capacity 8, the set that
  \<open>binary_set(4294967295)\<close> constructs, and an index of capacity 8 holding the value 7 twice
  under \<open>{1}\<close>.
\<close>

definition sample_set :: binary_set where
  "sample_set = \<lparr>capacity_fld = 8, size_fld = 1, set_fld = [2]\<rparr>"

definition sample_set_13 :: binary_set where
  "sample_set_13 = \<lparr>capacity_fld = 8, size_fld = 2, set_fld = [10]\<rparr>"

definition sample_set_135 :: binary_set where
  "sample_set_135 = \<lparr>capacity_fld = 8, size_fld = 3, set_fld = [42]\<rparr>"

definition sample_query :: binary_set where
  "sample_query = \<lparr>capacity_fld = 8, size_fld = 4, set_fld = [90]\<rparr>"

definition sample_wrapped :: binary_set where
  "sample_wrapped = \<lparr>capacity_fld = 4294967295, size_fld = 0, set_fld = []\<rparr>"

definition sample_index :: bs_searcher where
  "sample_index =
     snd (searcher_add (snd (searcher_add (bs_searcher_ctor 8) 7 sample_set)) 7 sample_set)"

text \<open>The number of bits set in a natural number and in a byte.\<close>

fun popcount :: "nat \<Rightarrow> nat" where
  "popcount n = (if n = 0 then 0 else n mod 2 + popcount (n div 2))"

declare popcount.simps [simp del]

definition bitcount :: "8 word \<Rightarrow> nat" where
  "bitcount b = length (filter (bit b) [0..<8])"

section \<open>Bytes and bits\<close>

subsection \<open>Bits of a byte\<close>

lemma byte_bit_less: "bit (b :: 8 word) j \<Longrightarrow> j < 8"
  by (drule bit_imp_le_length) simp

lemma test_bit_byte: "k < 8 \<Longrightarrow> ((ucast (b :: 8 word) AND push_bit k (1 :: 32 word)) \<noteq> 0) = bit b k"
proof -
  assume k: "k < 8"
  have "(ucast b AND push_bit k (1 :: 32 word) = 0) = (\<not> bit b k)"
    using k by (subst bit_eq_iff) (auto simp add: bit_simps dest: spec [where x = k])
  then show ?thesis by simp
qed

lemma set_bit_byte:
  "k < 8 \<Longrightarrow> bit (ucast ((ucast (b :: 8 word) :: 32 word) OR push_bit k 1) :: 8 word) j = (bit b j \<or> j = k)"
  by (auto simp add: bit_simps dest: byte_bit_less)

lemma clear_bit_byte:
  "k < 8 \<Longrightarrow> bit (ucast ((ucast (b :: 8 word) :: 32 word) AND NOT (push_bit k 1)) :: 8 word) j = (bit b j \<and> j \<noteq> k)"
  by (auto simp add: bit_simps dest: byte_bit_less)

lemma pad_mask_eq: "pad_mask c = mask (unat c mod 8)"
proof -
  have "push_bit (unat (c mod 8)) (1 :: 32 word) - 1 = mask (unat (c mod 8))"
    by (simp add: mask_eq_exp_minus_1 push_bit_eq_mult)
  then show ?thesis
    unfolding pad_mask_def by (simp add: bit_eq_iff bit_simps unat_mod)
qed

lemma bit_pad_mask: "bit (pad_mask c) j = (j < unat c mod 8)"
  by (auto simp add: pad_mask_eq bit_simps intro: less_trans [OF _ pos_mod_bound])

lemma all_ones_byte: "(ucast (NOT (0 :: 32 word)) :: 8 word) = - 1"
  by (simp add: bit_eq_iff bit_simps)

lemma bit_all_ones_byte: "bit (- 1 :: 8 word) j = (j < 8)"
  by (simp add: bit_simps)

subsection \<open>Counting\<close>

lemma bitcount_le: "bitcount b \<le> 8"
  unfolding bitcount_def by (rule order_trans [OF length_filter_le]) simp

lemma bit_at_Cons_low: "p < 8 \<Longrightarrow> bit_at (b # v) p = bit b p"
  by (simp add: bit_at_def)

lemma bit_at_Cons_shift: "bit_at (b # v) (p + 8) = bit_at v p"
proof -
  have "(p + 8) div 8 = Suc (p div 8)" and "(p + 8) mod 8 = p mod 8"
    by simp_all
  then show ?thesis
    unfolding bit_at_def by simp
qed

lemma positions_Cons:
  "filter (bit_at (b # v)) [0..<8 * Suc (length v)]
     = filter (bit b) [0..<8] @ map (\<lambda>p. p + 8) (filter (bit_at v) [0..<8 * length v])"
proof -
  have split: "[0..<8 * Suc (length v)] = [0..<8] @ map (\<lambda>p. p + 8) [0..<8 * length v]"
    using map_add_upt [of 8 "8 * length v"] upt_add_eq_append [of 0 8 "8 * length v"]
    by (simp add: add.commute)
  have low: "filter (bit_at (b # v)) [0..<8] = filter (bit b) [0..<8]"
    by (rule filter_cong) (simp_all add: bit_at_Cons_low)
  have high: "filter (bit_at (b # v)) (map (\<lambda>p. p + 8) [0..<8 * length v])
      = map (\<lambda>p. p + 8) (filter (bit_at v) [0..<8 * length v])"
    by (simp add: filter_map o_def bit_at_Cons_shift)
  show ?thesis
    unfolding split filter_append low high ..
qed

lemma count_positions: "length (filter (bit_at v) [0..<8 * length v]) = sum_list (map bitcount v)"
proof (induction v)
  case Nil
  then show ?case by simp
next
  case (Cons b v)
  have "length (filter (bit_at (b # v)) [0..<8 * length (b # v)])
      = bitcount b + length (filter (bit_at v) [0..<8 * length v])"
    using positions_Cons [of b v] by (simp add: bitcount_def)
  with Cons show ?case by simp
qed

lemma popcount_double: "popcount (2 * n) = popcount n"
  by (subst popcount.simps) (simp add: popcount.simps [of 0])

lemma popcount_Suc_double: "popcount (Suc (2 * n)) = Suc (popcount n)"
  by (subst popcount.simps) simp

lemma popcount_and_pred: "0 < n \<Longrightarrow> Suc (popcount (n AND (n - 1))) = popcount n"
proof (induction n rule: nat_bit_induct)
  case zero
  then show ?case by simp
next
  case (even n)
  have "2 * n - 1 = Suc (2 * (n - 1))"
    using even.hyps by simp
  then have "2 * n AND (2 * n - 1) = 2 * (n AND (n - 1))"
    by (simp add: and_nat_rec [of "2 * n"])
  with even show ?case
    by (simp add: popcount_double)
next
  case (odd n)
  have "Suc (2 * n) AND (Suc (2 * n) - 1) = 2 * n"
    by (simp add: and_nat_rec [of "Suc (2 * n)"])
  then show ?case
    by (simp add: popcount_double popcount_Suc_double)
qed

lemma filter_bit_popcount: "n < 2 ^ k \<Longrightarrow> length (filter (bit n) [0..<k]) = popcount n"
proof (induction k arbitrary: n)
  case 0
  then show ?case by (simp add: popcount.simps [of 0])
next
  case (Suc k)
  have "[0..<Suc k] = 0 # map Suc [0..<k]"
    by (simp add: upt_conv_Cons map_Suc_upt del: upt_Suc)
  then have "length (filter (bit n) [0..<Suc k])
      = (if odd n then 1 else 0) + length (filter (bit (n div 2)) [0..<k])"
    by (simp add: filter_map o_def bit_Suc bit_0 del: upt_Suc)
  also have "length (filter (bit (n div 2)) [0..<k]) = popcount (n div 2)"
    using Suc.prems by (intro Suc.IH) simp
  finally show ?case
    by (subst popcount.simps) (auto simp add: popcount.simps [of 0] odd_iff_mod_2_eq_one)
qed

lemma bitcount_popcount: "bitcount b = popcount (unat b)"
proof -
  have "filter (bit b) [0..<8] = filter (bit (unat b)) [0..<8]"
    by (rule filter_cong) (simp_all add: bit_unsigned_iff)
  moreover have "unat b < 2 ^ 8"
    using unsigned_less [of b, where 'a = nat] by simp
  ultimately show ?thesis
    unfolding bitcount_def by (simp add: filter_bit_popcount)
qed

lemma kernighan_count: "kernighan b n = n + of_nat (bitcount b)"
proof (induction b n rule: kernighan.induct)
  case (1 b n)
  show ?case
  proof (cases "b = 0")
    case True
    then show ?thesis
      by (subst kernighan.simps) (simp add: bitcount_popcount popcount.simps [of 0])
  next
    case False
    then have pos: "0 < unat b"
      by (simp add: unat_gt_0)
    have "unat (b AND (b - 1)) = unat b AND (unat b - 1)"
      using False by (simp add: unsigned_and_eq unat_minus_one)
    then have "Suc (bitcount (b AND (b - 1))) = bitcount b"
      using popcount_and_pred [OF pos] by (simp add: bitcount_popcount)
    then have "(of_nat (bitcount b) :: 64 word) = 1 + of_nat (bitcount (b AND (b - 1)))"
      by (metis of_nat_Suc)
    moreover have "kernighan b n = kernighan (b AND (b - 1)) (n + 1)"
      using False by (subst kernighan.simps) simp
    ultimately show ?thesis
      using "1.IH" [OF False] by simp
  qed
qed

lemma foldl_kernighan:
  "foldl (\<lambda>n byte. kernighan byte n) a v = a + of_nat (sum_list (map bitcount v))"
  by (induction v arbitrary: a) (simp_all add: kernighan_count)

lemma sum_bitcount_le: "sum_list (map bitcount v) \<le> 8 * length v"
proof (induction v)
  case Nil
  then show ?case by simp
next
  case (Cons b v)
  then show ?case
    using bitcount_le [of b] by simp
qed

lemma size_recalculate:
  assumes "length v < 2 ^ 32"
  shows "unat (size_fld (recalculate_size (s\<lparr>set_fld := v\<rparr>)))
           = length (filter (bit_at v) [0..<8 * length v])"
proof -
  have "8 * length v < 8 * 2 ^ 32"
    using assms by simp
  also have "\<dots> < (2 :: nat) ^ 64"
    by simp
  finally have "sum_list (map bitcount v) < 2 ^ LENGTH(64)"
    using sum_bitcount_le [of v] by simp
  then have "unat (of_nat (sum_list (map bitcount v)) :: 64 word) = sum_list (map bitcount v)"
    by (simp only: unat_of_nat mod_less)
  then show ?thesis
    by (simp add: recalculate_size_def foldl_kernighan count_positions)
qed

subsection \<open>Byte vectors\<close>

lemma bit_at_less:
  assumes "bit_at v p"
  shows "p < 8 * length v"
proof -
  from assms have "p div 8 < length v"
    by (simp add: bit_at_def)
  then show ?thesis by arith
qed

lemma bit_at_update:
  "i < length v \<Longrightarrow> bit_at (v[i := b]) p = (if p div 8 = i then bit b (p mod 8) else bit_at v p)"
  by (simp add: bit_at_def)

lemma bit_at_map2:
  "bit_at (map2 f v w) p
     = (p div 8 < length v \<and> p div 8 < length w \<and> bit (f (v ! (p div 8)) (w ! (p div 8))) (p mod 8))"
  by (auto simp add: bit_at_def)

lemma bit_at_replicate: "bit_at (replicate n b) p = (p div 8 < n \<and> bit b (p mod 8))"
  by (auto simp add: bit_at_def)

lemma byte_eqI:
  fixes a b :: "8 word"
  assumes "\<And>j. j < 8 \<Longrightarrow> bit a j = bit b j"
  shows "a = b"
  by (rule bit_word_eqI) (simp add: assms)

lemma bytes_eqI:
  assumes "length v = length w" and "\<And>p. p < 8 * length v \<Longrightarrow> bit_at v p = bit_at w p"
  shows "v = w"
proof (rule nth_equalityI)
  show "length v = length w" by fact
next
  fix i
  assume i: "i < length v"
  show "v ! i = w ! i"
  proof (rule byte_eqI)
    fix j :: nat
    assume j: "j < 8"
    then have "8 * i + j < 8 * length v"
      using i by simp
    then have "bit_at v (8 * i + j) = bit_at w (8 * i + j)"
      by (rule assms(2))
    then show "bit (v ! i) j = bit (w ! i) j"
      using i j assms(1) by (simp add: bit_at_def)
  qed
qed

lemma count_filter_card:
  "length (filter P [0..<n]) = card {p. p < n \<and> P p}"
proof -
  have "{x. P x} \<inter> set [0..<n] = {p. p < n \<and> P p}"
    by auto
  then show ?thesis
    using distinct_length_filter [of "[0..<n]" P] by simp
qed

subsection \<open>The byte count of the constructor\<close>

lemma byte_count_cases:
  fixes c :: "32 word"
  shows "(unat c + 7 < 4294967296 \<and> unat ((c + 7) div 8) = (unat c + 7) div 8)
       \<or> (4294967296 \<le> unat c + 7 \<and> unat ((c + 7) div 8) = 0 \<and> unat c mod 8 \<noteq> 0 \<and> c \<noteq> 0)"
proof -
  have lt: "unat c < 4294967296"
    using unsigned_less [of c, where 'a = nat] by simp
  have eq: "unat ((c + 7) div 8) = ((unat c + 7) mod 4294967296) div 8"
    by (simp add: unat_div unat_word_ariths)
  show ?thesis
  proof (cases "unat c + 7 < 4294967296")
    case True
    then show ?thesis using eq by simp
  next
    case False
    then have ge: "4294967296 \<le> unat c + 7" by simp
    then have "(unat c + 7) mod 4294967296 = unat c + 7 - 4294967296"
      using lt by (simp add: mod_if)
    then have "unat ((c + 7) div 8) = 0"
      using eq lt by simp
    moreover have "unat c mod 8 \<noteq> 0"
      using ge lt by presburger
    moreover have "c \<noteq> 0"
      using ge by auto
    ultimately show ?thesis using ge by simp
  qed
qed

lemma well_formed_length:
  "well_formed s \<Longrightarrow> length (set_fld s) = (unat (capacity_fld s) + 7) div 8"
  using byte_count_cases [of "capacity_fld s"]
  by (auto simp add: well_formed_def consistent_def)

lemma consistent_cases:
  assumes "consistent s"
  shows "well_formed s \<or> (set_fld s = [] \<and> capacity_fld s \<noteq> 0 \<and> unat (capacity_fld s) mod 8 \<noteq> 0)"
  using assms byte_count_cases [of "capacity_fld s"]
  by (auto simp add: well_formed_def consistent_def)

lemma length_bytes_bound: "consistent s \<Longrightarrow> length (set_fld s) < 2 ^ 32"
  using unsigned_less [of "(capacity_fld s + 7) div 8", where 'a = nat]
  by (simp add: consistent_def)

lemma consistentI:
  assumes "length (set_fld s) = unat ((capacity_fld s + 7) div 8)"
    and "unat (size_fld s) = card {p. bit_at (set_fld s) p}"
    and "\<And>p. unat (capacity_fld s) \<le> p \<Longrightarrow> \<not> bit_at (set_fld s) p"
  shows "consistent s"
proof -
  have "{p. p < 8 * length (set_fld s) \<and> bit_at (set_fld s) p} = {p. bit_at (set_fld s) p}"
    using bit_at_less by auto
  then show ?thesis
    using assms by (simp add: consistent_def count_filter_card list_all_iff)
qed

lemma consistent_size: "consistent s \<Longrightarrow> unat (size_fld s) = card {p. bit_at (set_fld s) p}"
proof -
  assume "consistent s"
  moreover have "{p. p < 8 * length (set_fld s) \<and> bit_at (set_fld s) p} = {p. bit_at (set_fld s) p}"
    using bit_at_less by auto
  ultimately show ?thesis
    by (simp add: consistent_def count_filter_card)
qed

lemma consistent_pad: "consistent s \<Longrightarrow> unat (capacity_fld s) \<le> p \<Longrightarrow> \<not> bit_at (set_fld s) p"
  using bit_at_less [of "set_fld s" p]
  by (auto simp add: consistent_def list_all_iff)

lemma finite_bits: "finite {p. bit_at v p}"
proof (rule finite_subset)
  show "{p. bit_at v p} \<subseteq> {..<8 * length v}"
    using bit_at_less by auto
qed simp

lemma card_bits_le: "card {p. bit_at v p} \<le> 8 * length v"
proof -
  have "card {p. bit_at v p} \<le> card {..<8 * length v}"
    using bit_at_less by (intro card_mono) auto
  then show ?thesis by simp
qed

lemma consistent_recalculate:
  assumes "length v = unat ((capacity_fld s + 7) div 8)"
    and "\<And>p. unat (capacity_fld s) \<le> p \<Longrightarrow> \<not> bit_at v p"
  shows "consistent (recalculate_size (s\<lparr>set_fld := v\<rparr>))"
proof -
  have "length v < 2 ^ 32"
    using unsigned_less [of "(capacity_fld s + 7) div 8", where 'a = nat] assms(1) by simp
  then have "unat (size_fld (recalculate_size (s\<lparr>set_fld := v\<rparr>)))
      = length (filter (bit_at v) [0..<8 * length v])"
    by (rule size_recalculate)
  moreover have "set_fld (recalculate_size (s\<lparr>set_fld := v\<rparr>)) = v"
    and "capacity_fld (recalculate_size (s\<lparr>set_fld := v\<rparr>)) = capacity_fld s"
    by (simp_all add: recalculate_size_def)
  ultimately show ?thesis
    using assms by (simp add: consistent_def list_all_iff)
qed

subsection \<open>Membership, insertion and removal on well-formed sets\<close>

lemmas test_bit_byte_exp = test_bit_byte [unfolded push_bit_of_1]
  and set_bit_byte_exp = set_bit_byte [unfolded push_bit_of_1]
  and clear_bit_byte_exp = clear_bit_byte [unfolded push_bit_of_1]

lemma validate_element_ok:
  "validate_element s e = Inr () \<longleftrightarrow> capacity_fld s \<noteq> 0 \<and> e < capacity_fld s"
  unfolding validate_element_def
  by (cases "capacity_fld s = 0"; cases "capacity_fld s \<le> e"; simp add: not_le)

lemma less_capacity_nonzero: "(e :: 32 word) < c \<Longrightarrow> c \<noteq> 0"
  by auto

lemma index_in_store:
  assumes "well_formed s" and "e < capacity_fld s"
  shows "unat (e div 8) = unat e div 8" and "unat e div 8 < length (set_fld s)"
    and "unat (e mod 8) = unat e mod 8"
proof -
  show "unat (e div 8) = unat e div 8" and "unat (e mod 8) = unat e mod 8"
    by (simp_all add: unat_div unat_mod)
  have "unat e < unat (capacity_fld s)"
    using assms(2) by (simp add: word_less_nat_alt)
  moreover have "unat (capacity_fld s) \<le> 8 * length (set_fld s)"
    using assms(1) by (simp add: well_formed_def)
  ultimately show "unat e div 8 < length (set_fld s)"
    by arith
qed

lemma contains_well_formed:
  assumes "well_formed s" and "e < capacity_fld s"
  shows "contains s e = Inr (bit_at (set_fld s) (unat e))"
proof -
  have "validate_element s e = Inr ()"
    using assms(2) by (simp add: validate_element_ok less_capacity_nonzero)
  then show ?thesis
    using index_in_store [OF assms]
    by (simp add: contains_def bit_at_def test_bit_byte_exp)
qed

lemma contains_Inr_store: "contains s e = Inr b \<Longrightarrow> set_fld s \<noteq> []"
  by (auto simp add: contains_def Let_def split: sum.splits if_splits)

lemma same_position: "p div 8 = q div 8 \<and> p mod 8 = q mod 8 \<longleftrightarrow> p = (q :: nat)"
proof
  assume h: "p div 8 = q div 8 \<and> p mod 8 = q mod 8"
  have "p = 8 * (p div 8) + p mod 8"
    by simp
  also have "\<dots> = 8 * (q div 8) + q mod 8"
    using h by simp
  also have "\<dots> = q"
    by simp
  finally show "p = q" .
next
  assume "p = q"
  then show "p div 8 = q div 8 \<and> p mod 8 = q mod 8"
    by simp
qed

lemma add_outcomes:
  assumes "add s e = (r, s')"
  shows "s' = s \<and> r \<noteq> Inr True
       \<or> r = Inr True \<and> validate_element s e = Inr () \<and> contains s e = Inr False
           \<and> s' = s\<lparr>set_fld := (set_fld s)[unat (e div 8) :=
                       ucast ((ucast (set_fld s ! unat (e div 8)) :: 32 word) OR push_bit (unat (e mod 8)) 1)],
                    size_fld := size_fld s + 1\<rparr>"
  using assms by (auto simp add: add_def Let_def split: sum.splits bool.splits)

lemma remove_outcomes:
  assumes "remove s e = (r, s')"
  shows "s' = s \<and> r \<noteq> Inr True
       \<or> r = Inr True \<and> validate_element s e = Inr () \<and> contains s e = Inr True
           \<and> s' = s\<lparr>set_fld := (set_fld s)[unat (e div 8) :=
                       ucast ((ucast (set_fld s ! unat (e div 8)) :: 32 word) AND NOT (push_bit (unat (e mod 8)) 1))],
                    size_fld := size_fld s - 1\<rparr>"
  using assms by (auto simp add: remove_def Let_def split: sum.splits bool.splits)

lemma size_small: "consistent s \<Longrightarrow> unat (size_fld s) < 2 ^ 35"
proof -
  assume c: "consistent s"
  have "unat (size_fld s) \<le> 8 * length (set_fld s)"
    using card_bits_le [of "set_fld s"] c by (simp add: consistent_size)
  also have "\<dots> < 8 * 2 ^ 32"
    using length_bytes_bound [OF c] by simp
  finally show ?thesis by simp
qed

lemma add_absent:
  assumes wf: "well_formed s" and e: "e < capacity_fld s" and absent: "\<not> bit_at (set_fld s) (unat e)"
  shows "\<exists>s'. add s e = (Inr True, s') \<and> well_formed s' \<and> capacity_fld s' = capacity_fld s
           \<and> (\<forall>p. bit_at (set_fld s') p = (bit_at (set_fld s) p \<or> p = unat e))
           \<and> unat (size_fld s') = Suc (unat (size_fld s))"
proof -
  let ?i = "unat (e div 8)"
  let ?b = "ucast ((ucast (set_fld s ! ?i) :: 32 word) OR push_bit (unat (e mod 8)) 1) :: 8 word"
  let ?s' = "s\<lparr>set_fld := (set_fld s)[?i := ?b], size_fld := size_fld s + 1\<rparr>"
  note idx = index_in_store [OF wf e]
  have cons: "consistent s"
    using wf by (simp add: well_formed_def)
  have val: "validate_element s e = Inr ()"
    using e by (simp add: validate_element_ok less_capacity_nonzero)
  have "contains s e = Inr False"
    using contains_well_formed [OF wf e] absent by simp
  with val have run: "add s e = (Inr True, ?s')"
    by (simp add: add_def Let_def)
  have bits: "bit_at (set_fld ?s') p = (bit_at (set_fld s) p \<or> p = unat e)" for p
  proof (cases "p div 8 = unat e div 8")
    case True
    then have "bit_at (set_fld ?s') p = (bit (set_fld s ! (unat e div 8)) (p mod 8) \<or> p mod 8 = unat e mod 8)"
      using idx by (simp add: bit_at_update set_bit_byte_exp)
    also have "\<dots> = (bit_at (set_fld s) p \<or> p = unat e)"
      using True idx(2) same_position [of p "unat e"] by (auto simp add: bit_at_def)
    finally show ?thesis .
  next
    case False
    then show ?thesis
      using idx by (auto simp add: bit_at_update)
  qed
  have "{p. bit_at (set_fld ?s') p} = insert (unat e) {p. bit_at (set_fld s) p}"
    using bits by auto
  then have card: "card {p. bit_at (set_fld ?s') p} = Suc (unat (size_fld s))"
    using absent finite_bits [of "set_fld s"] by (simp add: consistent_size [OF cons])
  have "unat (size_fld s) + 1 < 2 ^ 64"
    using size_small [OF cons] by simp
  then have size: "unat (size_fld s + 1) = Suc (unat (size_fld s))"
    by (simp add: unat_word_ariths)
  have lt: "unat e < unat (capacity_fld s)"
    using e by (simp add: word_less_nat_alt)
  have "consistent ?s'"
  proof (rule consistentI)
    show "length (set_fld ?s') = unat ((capacity_fld ?s' + 7) div 8)"
      using cons by (simp add: consistent_def)
    show "unat (size_fld ?s') = card {p. bit_at (set_fld ?s') p}"
      using card size by simp
    show "\<not> bit_at (set_fld ?s') p" if "unat (capacity_fld ?s') \<le> p" for p
      using that lt consistent_pad [OF cons, of p] by (simp only: bits) simp
  qed
  then have "well_formed ?s'"
    using wf by (simp add: well_formed_def)
  with run bits size show ?thesis
    by (intro exI [of _ ?s']) simp
qed

lemma add_present:
  assumes "well_formed s" and "e < capacity_fld s" and "bit_at (set_fld s) (unat e)"
  shows "add s e = (Inr False, s)"
proof -
  have "validate_element s e = Inr ()"
    using assms(2) by (simp add: validate_element_ok less_capacity_nonzero)
  moreover have "contains s e = Inr True"
    using contains_well_formed [OF assms(1,2)] assms(3) by simp
  ultimately show ?thesis
    by (simp add: add_def)
qed

lemma remove_present:
  assumes wf: "well_formed s" and e: "e < capacity_fld s" and present: "bit_at (set_fld s) (unat e)"
  shows "\<exists>s'. remove s e = (Inr True, s') \<and> well_formed s' \<and> capacity_fld s' = capacity_fld s
           \<and> (\<forall>p. bit_at (set_fld s') p = (bit_at (set_fld s) p \<and> p \<noteq> unat e))
           \<and> Suc (unat (size_fld s')) = unat (size_fld s)"
proof -
  let ?i = "unat (e div 8)"
  let ?b = "ucast ((ucast (set_fld s ! ?i) :: 32 word) AND NOT (push_bit (unat (e mod 8)) 1)) :: 8 word"
  let ?s' = "s\<lparr>set_fld := (set_fld s)[?i := ?b], size_fld := size_fld s - 1\<rparr>"
  note idx = index_in_store [OF wf e]
  have cons: "consistent s"
    using wf by (simp add: well_formed_def)
  have val: "validate_element s e = Inr ()"
    using e by (simp add: validate_element_ok less_capacity_nonzero)
  have "contains s e = Inr True"
    using contains_well_formed [OF wf e] present by simp
  with val have run: "remove s e = (Inr True, ?s')"
    by (simp add: remove_def Let_def)
  have bits: "bit_at (set_fld ?s') p = (bit_at (set_fld s) p \<and> p \<noteq> unat e)" for p
  proof (cases "p div 8 = unat e div 8")
    case True
    then have "bit_at (set_fld ?s') p = (bit (set_fld s ! (unat e div 8)) (p mod 8) \<and> p mod 8 \<noteq> unat e mod 8)"
      using idx by (simp add: bit_at_update clear_bit_byte_exp)
    also have "\<dots> = (bit_at (set_fld s) p \<and> p \<noteq> unat e)"
      using True idx(2) same_position [of p "unat e"] by (auto simp add: bit_at_def)
    finally show ?thesis .
  next
    case False
    then show ?thesis
      using idx by (auto simp add: bit_at_update)
  qed
  have "{p. bit_at (set_fld ?s') p} = {p. bit_at (set_fld s) p} - {unat e}"
    using bits by auto
  moreover have "Suc (card ({p. bit_at (set_fld s) p} - {unat e})) = card {p. bit_at (set_fld s) p}"
    using present finite_bits [of "set_fld s"] by (intro card_Suc_Diff1) simp_all
  ultimately have card: "Suc (card {p. bit_at (set_fld ?s') p}) = unat (size_fld s)"
    by (simp only: consistent_size [OF cons])
  then have "size_fld s \<noteq> 0"
    by auto
  then have size: "unat (size_fld s - 1) = unat (size_fld s) - 1"
    by (rule unat_minus_one)
  have "consistent ?s'"
  proof (rule consistentI)
    show "length (set_fld ?s') = unat ((capacity_fld ?s' + 7) div 8)"
      using cons by (simp add: consistent_def)
    show "unat (size_fld ?s') = card {p. bit_at (set_fld ?s') p}"
      using card size by simp
    show "\<not> bit_at (set_fld ?s') p" if "unat (capacity_fld ?s') \<le> p" for p
      using that consistent_pad [OF cons, of p] by (simp only: bits) simp
  qed
  then have "well_formed ?s'"
    using wf by (simp add: well_formed_def)
  moreover have "Suc (unat (size_fld ?s')) = unat (size_fld s)"
    using card size by simp
  ultimately show ?thesis
    using run bits by (intro exI [of _ ?s']) simp
qed

lemma remove_absent:
  assumes "well_formed s" and "e < capacity_fld s" and "\<not> bit_at (set_fld s) (unat e)"
  shows "remove s e = (Inr False, s)"
proof -
  have "validate_element s e = Inr ()"
    using assms(2) by (simp add: validate_element_ok less_capacity_nonzero)
  moreover have "contains s e = Inr False"
    using contains_well_formed [OF assms(1,2)] assms(3) by simp
  ultimately show ?thesis
    by (simp add: remove_def)
qed

subsection \<open>Construction, \<open>clear\<close> and \<open>fill\<close>\<close>

lemma all_ones_byte_minus: "(ucast (- 1 :: 32 word) :: 8 word) = - 1"
  by (rule bit_word_eqI) (simp add: bit_simps)

lemma word_mod8_zero: "((c :: 32 word) mod 8 = 0) = (unat c mod 8 = 0)"
proof -
  have "(c mod 8 = 0) = (unat (c mod 8) = 0)"
    by (simp add: unat_eq_0)
  then show ?thesis
    by (simp add: unat_mod)
qed

lemma unat_ucast_capacity: "unat (ucast (c :: 32 word) :: 64 word) = unat c"
proof -
  have "unat c < 2 ^ 64"
    using unsigned_less [of c, where 'a = nat] by simp
  then show ?thesis
    by (simp add: unsigned_ucast_eq take_bit_nat_eq_self)
qed

lemma card_below: "card {p. p < (k :: nat)} = k"
proof -
  have "{p. p < k} = {..<k}" by auto
  then show ?thesis by simp
qed

lemma position_split:
  fixes p k :: nat
  shows "p < k \<longleftrightarrow> p div 8 < k div 8 \<or> (p div 8 = k div 8 \<and> p mod 8 < k mod 8)"
proof -
  have p: "p = 8 * (p div 8) + p mod 8" and k: "k = 8 * (k div 8) + k mod 8"
    by simp_all
  have "p mod 8 < 8" and "k mod 8 < 8"
    by simp_all
  then show ?thesis
    using p k by linarith
qed

text \<open>All bytes set, the last one masked when the capacity is not a multiple of 8.\<close>

lemma filled_bits:
  fixes k :: nat
  assumes n: "n = (k + 7) div 8" and k: "k = unat c"
  shows "k mod 8 \<noteq> 0 \<Longrightarrow> bit_at ((replicate n (- 1))[n - 1 := pad_mask c]) p = (p < k)"
    and "k mod 8 = 0 \<Longrightarrow> bit_at (replicate n (- 1)) p = (p < k)"
proof -
  assume nz: "k mod 8 \<noteq> 0"
  then have "n = Suc (k div 8)"
    using n by presburger
  then have last: "n - 1 = k div 8" and pos: "n - 1 < n" and below: "p div 8 < n \<longleftrightarrow> p div 8 < Suc (k div 8)"
    by simp_all
  have "bit_at ((replicate n (- 1))[n - 1 := pad_mask c]) p
      = (if p div 8 = n - 1 then bit (pad_mask c) (p mod 8) else bit_at (replicate n (- 1)) p)"
    using pos by (intro bit_at_update) simp
  also have "\<dots> = (if p div 8 = n - 1 then p mod 8 < k mod 8 else p div 8 < Suc (k div 8))"
    using k by (simp add: bit_pad_mask bit_at_replicate bit_all_ones_byte below)
  also have "\<dots> = (if p div 8 = k div 8 then p mod 8 < k mod 8 else p div 8 < Suc (k div 8))"
    by (simp only: last)
  also have "\<dots> = (p < k)"
    using position_split [of p k] by auto
  finally show "bit_at ((replicate n (- 1))[n - 1 := pad_mask c]) p = (p < k)" .
next
  assume z: "k mod 8 = 0"
  then have "n = k div 8"
    using n by presburger
  then have "bit_at (replicate n (- 1)) p = (p div 8 < k div 8)"
    by (simp add: bit_at_replicate bit_all_ones_byte)
  also have "\<dots> = (p < k)"
    using position_split [of p k] z by auto
  finally show "bit_at (replicate n (- 1)) p = (p < k)" .
qed

lemma full_well_formed:
  assumes "unat (capacity_fld s) + 7 < 4294967296"
    and "length (set_fld s) = (unat (capacity_fld s) + 7) div 8"
    and bits: "\<And>p. bit_at (set_fld s) p = (p < unat (capacity_fld s))"
    and "size_fld s = ucast (capacity_fld s)"
  shows "well_formed s"
proof -
  have len: "length (set_fld s) = unat ((capacity_fld s + 7) div 8)"
    using assms(1,2) byte_count_cases [of "capacity_fld s"] by auto
  have "consistent s"
  proof (rule consistentI)
    show "length (set_fld s) = unat ((capacity_fld s + 7) div 8)" by fact
    show "unat (size_fld s) = card {p. bit_at (set_fld s) p}"
      using assms(4) by (simp add: bits card_below unat_ucast_capacity)
    show "\<not> bit_at (set_fld s) p" if "unat (capacity_fld s) \<le> p" for p
      using that by (simp add: bits)
  qed
  moreover have "unat (capacity_fld s) \<le> 8 * length (set_fld s)"
    using assms(2) by presburger
  ultimately show ?thesis
    by (simp add: well_formed_def)
qed

lemma empty_store_consistent:
  assumes "length (set_fld s) = unat ((capacity_fld s + 7) div 8)"
    and "\<And>p. \<not> bit_at (set_fld s) p"
    and "size_fld s = 0"
  shows "consistent s"
  using assms by (intro consistentI) simp_all

lemma bit_at_zeros: "\<not> bit_at (replicate n 0) p"
  by (simp add: bit_at_replicate)

lemma ctor_consistent:
  assumes "binary_set_ctor c f = Inr s"
  shows "consistent s \<and> capacity_fld s = c"
proof (cases f)
  case False
  with assms have s: "s = \<lparr>capacity_fld = c, size_fld = 0, set_fld = replicate (unat ((c + 7) div 8)) 0\<rparr>"
    by (auto simp add: binary_set_ctor_def Let_def split: if_splits)
  have "consistent s"
    by (rule empty_store_consistent) (simp_all add: s bit_at_zeros)
  then show ?thesis by (simp add: s)
next
  case True
  let ?n = "unat ((c + 7) div 8)"
  let ?v = "replicate ?n (- 1 :: 8 word)"
  from assms have c0: "c \<noteq> 0"
    by (auto simp add: binary_set_ctor_def split: if_splits)
  show ?thesis
  proof (cases "unat c mod 8 = 0")
    case z: True
    with assms True c0 have s: "s = \<lparr>capacity_fld = c, size_fld = ucast c, set_fld = ?v\<rparr>"
      by (simp add: binary_set_ctor_def Let_def all_ones_byte all_ones_byte_minus word_mod8_zero)
    have ad: "unat c + 7 < 4294967296" and n: "?n = (unat c + 7) div 8"
      using byte_count_cases [of c] z by auto
    have "bit_at (set_fld s) p = (p < unat (capacity_fld s))" for p
      using filled_bits(2) [OF n refl z] by (simp add: s)
    then have "well_formed s"
      by (rule full_well_formed [rotated 2]) (use ad n in \<open>simp_all add: s\<close>)
    then show ?thesis by (simp add: s well_formed_def)
  next
    case nz: False
    with assms True c0 have m: "mask_last ?v ?n (pad_mask c) = Inr (set_fld s)"
      and cap: "capacity_fld s = c" and size: "size_fld s = ucast c"
      by (auto simp add: binary_set_ctor_def Let_def all_ones_byte all_ones_byte_minus word_mod8_zero split: sum.splits)
    from m have n0: "?n \<noteq> 0" and v': "set_fld s = ?v[?n - 1 := pad_mask c]"
      by (auto simp add: mask_last_def Let_def split: if_splits)
    then have ad: "unat c + 7 < 4294967296" and n: "?n = (unat c + 7) div 8"
      using byte_count_cases [of c] by auto
    have "bit_at (set_fld s) p = (p < unat (capacity_fld s))" for p
      using filled_bits(1) [OF n refl nz] by (simp add: v' cap)
    then have "well_formed s"
      by (rule full_well_formed [rotated 2]) (use ad n in \<open>simp_all add: cap size v'\<close>)
    then show ?thesis by (simp add: cap well_formed_def)
  qed
qed

lemma default_consistent: "consistent binary_set_default"
  by (simp add: consistent_def binary_set_default_def)

lemma clear_consistent:
  assumes "consistent s"
  shows "consistent (clear s)"
proof (rule empty_store_consistent)
  show "length (set_fld (clear s)) = unat ((capacity_fld (clear s) + 7) div 8)"
    using assms by (simp add: clear_def consistent_def)
  show "\<not> bit_at (set_fld (clear s)) p" for p
    by (simp add: clear_def bit_at_def)
  show "size_fld (clear s) = 0"
    by (simp add: clear_def)
qed

lemma fill_consistent:
  assumes cons: "consistent s" and run: "fill s = (r, s')" and ok: "r \<noteq> Inl out_of_bounds"
  shows "consistent s'"
proof -
  let ?c = "capacity_fld s"
  let ?n = "length (set_fld s)"
  let ?v = "replicate ?n (- 1 :: 8 word)"
  have v: "map (\<lambda>_. ucast (- 1 :: 32 word)) (set_fld s) = ?v"
    by (simp add: all_ones_byte all_ones_byte_minus map_replicate_const)
  have len: "?n = unat ((?c + 7) div 8)"
    using cons by (simp add: consistent_def)
  show ?thesis
  proof (cases "unat ?c mod 8 = 0")
    case z: True
    then have s': "s' = s\<lparr>set_fld := ?v, size_fld := ucast ?c\<rparr>"
      using run by (simp add: fill_def v word_mod8_zero)
    have ad: "unat ?c + 7 < 4294967296" and n: "?n = (unat ?c + 7) div 8"
      using byte_count_cases [of ?c] z len by auto
    have "bit_at (set_fld s') p = (p < unat (capacity_fld s'))" for p
      using filled_bits(2) [OF n refl z] by (simp add: s')
    then have "well_formed s'"
      by (rule full_well_formed [rotated 2]) (use ad n in \<open>simp_all add: s'\<close>)
    then show ?thesis by (simp add: well_formed_def)
  next
    case nz: False
    then have c0: "?c \<noteq> 0" by auto
    obtain w where m: "mask_last ?v ?n (pad_mask ?c) = Inr w"
      using run ok nz c0 by (cases "mask_last ?v ?n (pad_mask ?c)")
        (auto simp add: fill_def v word_mod8_zero mask_last_def Let_def split: if_splits)
    then have s': "s' = s\<lparr>set_fld := w, size_fld := ucast ?c\<rparr>"
      using run nz c0 by (simp add: fill_def v word_mod8_zero)
    from m have n0: "?n \<noteq> 0" and w: "w = ?v[?n - 1 := pad_mask ?c]"
      by (auto simp add: mask_last_def Let_def split: if_splits)
    then have ad: "unat ?c + 7 < 4294967296" and n: "?n = (unat ?c + 7) div 8"
      using byte_count_cases [of ?c] len by auto
    have "bit_at (set_fld s') p = (p < unat (capacity_fld s'))" for p
      using filled_bits(1) [OF n refl nz] by (simp add: s' w)
    then have "well_formed s'"
      by (rule full_well_formed [rotated 2]) (use ad n in \<open>simp_all add: s' w\<close>)
    then show ?thesis by (simp add: well_formed_def)
  qed
qed

subsection \<open>The boolean operations\<close>

lemma bytewise_same_length:
  "length v = length w \<Longrightarrow> bytewise f v w = Inr (map2 f v w)"
  by (simp add: bytewise_def)

lemma consistent_same_length:
  "consistent s \<Longrightarrow> consistent other \<Longrightarrow> capacity_fld s = capacity_fld other
     \<Longrightarrow> length (set_fld s) = length (set_fld other)"
  by (simp add: consistent_def)

lemma combined_consistent:
  assumes s: "consistent s" and o: "consistent other" and cap: "capacity_fld s = capacity_fld other"
    and f: "\<And>a b j. bit (f a b) j \<Longrightarrow> bit a j \<or> bit b j"
  shows "consistent (recalculate_size (s\<lparr>set_fld := map2 f (set_fld s) (set_fld other)\<rparr>))"
proof (rule consistent_recalculate)
  show "length (map2 f (set_fld s) (set_fld other)) = unat ((capacity_fld s + 7) div 8)"
    using s o cap by (simp add: consistent_def)
next
  fix p
  assume p: "unat (capacity_fld s) \<le> p"
  show "\<not> bit_at (map2 f (set_fld s) (set_fld other)) p"
  proof
    assume "bit_at (map2 f (set_fld s) (set_fld other)) p"
    then have r: "p div 8 < length (set_fld s)" "p div 8 < length (set_fld other)"
      and "bit (f (set_fld s ! (p div 8)) (set_fld other ! (p div 8))) (p mod 8)"
      by (simp_all add: bit_at_map2)
    from f [OF this(3)] r have "bit_at (set_fld s) p \<or> bit_at (set_fld other) p"
      by (simp add: bit_at_def)
    then show False
      using consistent_pad [OF s p] consistent_pad [OF o, of p] p cap by simp
  qed
qed

lemma bin_op_outcomes:
  "bin_op f s other =
     (if capacity_fld s \<noteq> capacity_fld other then Inl (invalid_argument msg_same_capacity)
      else if length (set_fld other) < length (set_fld s) then Inl out_of_bounds
      else Inr (recalculate_size (s\<lparr>set_fld := map2 f (set_fld s) (set_fld other)\<rparr>)))"
  by (simp add: bin_op_def validate_same_capacity_def bytewise_def)

lemma bin_op_assign_outcomes:
  "bin_op_assign f s other =
     (if capacity_fld s \<noteq> capacity_fld other then (Inl (invalid_argument msg_same_capacity), s)
      else if length (set_fld other) < length (set_fld s)
        then (Inl out_of_bounds, s\<lparr>set_fld := map2 f (set_fld s) (set_fld other)
                                               @ drop (length (set_fld other)) (set_fld s)\<rparr>)
      else (Inr (), recalculate_size (s\<lparr>set_fld := map2 f (set_fld s) (set_fld other)\<rparr>)))"
  by (simp add: bin_op_assign_def validate_same_capacity_def bytewise_def)

lemma bin_op_consistent:
  assumes "consistent s" and "consistent other" and "bin_op f s other = Inr s'"
    and "\<And>a b j. bit (f a b) j \<Longrightarrow> bit a j \<or> bit b j"
  shows "consistent s'"
proof -
  from assms(3) have cap: "capacity_fld s = capacity_fld other"
    and s': "s' = recalculate_size (s\<lparr>set_fld := map2 f (set_fld s) (set_fld other)\<rparr>)"
    by (auto simp add: bin_op_outcomes split: if_splits)
  show ?thesis
    unfolding s' using assms(1,2) cap assms(4) by (rule combined_consistent)
qed

lemma bin_op_assign_consistent:
  assumes "consistent s" and "consistent other" and "bin_op_assign f s other = (r, s')"
    and "\<And>a b j. bit (f a b) j \<Longrightarrow> bit a j \<or> bit b j"
  shows "consistent s'"
proof (cases "capacity_fld s = capacity_fld other")
  case False
  with assms(3) have "s' = s"
    by (simp add: bin_op_assign_outcomes)
  with assms(1) show ?thesis by simp
next
  case True
  have "length (set_fld s) = length (set_fld other)"
    using assms(1,2) True by (rule consistent_same_length)
  with assms(3) True
  have s': "s' = recalculate_size (s\<lparr>set_fld := map2 f (set_fld s) (set_fld other)\<rparr>)"
    by (simp add: bin_op_assign_outcomes)
  show ?thesis
    unfolding s' using assms(1,2) True assms(4) by (rule combined_consistent)
qed

lemma bit_ops_sound:
  fixes a b :: "8 word"
  shows "bit (a AND b) j \<Longrightarrow> bit a j \<or> bit b j"
    and "bit (a OR b) j \<Longrightarrow> bit a j \<or> bit b j"
    and "bit (a AND NOT b) j \<Longrightarrow> bit a j \<or> bit b j"
  by (simp_all add: bit_and_iff bit_or_iff)

lemma recalculate_fields:
  "set_fld (recalculate_size s) = set_fld s" "capacity_fld (recalculate_size s) = capacity_fld s"
  by (simp_all add: recalculate_size_def)



subsection \<open>The complement\<close>

lemma bit_at_map_NOT: "bit_at (map NOT v) p = (p div 8 < length v \<and> \<not> bit (v ! (p div 8)) (p mod 8))"
  by (auto simp add: bit_at_def bit_not_iff)

lemma op_not_well_formed:
  assumes wf: "well_formed s" and c0: "capacity_fld s \<noteq> 0"
  shows "\<exists>s'. op_not s = Inr s' \<and> well_formed s' \<and> capacity_fld s' = capacity_fld s
           \<and> (\<forall>p. bit_at (set_fld s') p = (p < unat (capacity_fld s) \<and> \<not> bit_at (set_fld s) p))"
proof -
  let ?c = "capacity_fld s"
  let ?k = "unat ?c"
  let ?u = "set_fld s"
  let ?n = "length ?u"
  let ?result = "\<lparr>capacity_fld = ?c, size_fld = 0, set_fld = replicate (unat ((?c + 7) div 8)) 0\<rparr>"
  have cons: "consistent s"
    using wf by (simp add: well_formed_def)
  have len: "unat ((?c + 7) div 8) = ?n"
    using cons by (simp add: consistent_def)
  have n: "?n = (?k + 7) div 8"
    using wf by (rule well_formed_length)
  have ctor: "binary_set_ctor ?c False = Inr ?result"
    using c0 by (simp add: binary_set_ctor_def)
  have k0: "?k \<noteq> 0"
    using c0 by (simp add: unat_eq_0)
  define v' where "v' = (if ?k mod 8 \<noteq> 0 then (map NOT ?u)[?n - 1 := (map NOT ?u ! (?n - 1)) AND pad_mask ?c]
    else map NOT ?u)"
  have n0: "?k mod 8 \<noteq> 0 \<Longrightarrow> ?n \<noteq> 0"
    using n by presburger
  have run: "op_not s = Inr (recalculate_size (?result\<lparr>set_fld := v'\<rparr>))"
    using c0 n0 by (simp add: op_not_def ctor len v'_def mask_last_def word_mod8_zero Let_def)
  have bits: "bit_at v' p = (p < ?k \<and> \<not> bit_at ?u p)" for p
  proof (cases "?k mod 8 = 0")
    case True
    then have "?n = ?k div 8"
      using n by presburger
    have "bit_at v' p = (p div 8 < ?n \<and> \<not> bit (?u ! (p div 8)) (p mod 8))"
      using True by (simp add: v'_def bit_at_map_NOT)
    also have "\<dots> = (p div 8 < ?k div 8 \<and> \<not> bit_at ?u p)"
      using \<open>?n = ?k div 8\<close> by (auto simp add: bit_at_def)
    also have "\<dots> = (p < ?k \<and> \<not> bit_at ?u p)"
      using position_split [of p ?k] True by auto
    finally show ?thesis .
  next
    case False
    then have "?n = Suc (?k div 8)"
      using n by presburger
    then have last: "?n - 1 = ?k div 8" and pos: "?n - 1 < length (map NOT ?u)"
      and below: "p div 8 < ?n \<longleftrightarrow> p div 8 < Suc (?k div 8)"
      by simp_all
    have "bit_at v' p = (if p div 8 = ?n - 1 then bit ((map NOT ?u ! (?n - 1)) AND pad_mask ?c) (p mod 8)
        else bit_at (map NOT ?u) p)"
      using False pos by (simp add: v'_def bit_at_update del: length_map nth_map)
    also have "\<dots> = (if p div 8 = ?k div 8 then bit ((map NOT ?u ! (?k div 8)) AND pad_mask ?c) (p mod 8)
        else bit_at (map NOT ?u) p)"
      by (simp only: last)
    also have "\<dots> = (if p div 8 = ?k div 8 then \<not> bit (?u ! (?k div 8)) (p mod 8) \<and> p mod 8 < ?k mod 8
        else p div 8 < Suc (?k div 8) \<and> \<not> bit (?u ! (p div 8)) (p mod 8))"
      using \<open>?n = Suc (?k div 8)\<close>
      by (simp add: bit_and_iff bit_pad_mask bit_not_iff bit_at_map_NOT)
    also have "\<dots> = (p < ?k \<and> \<not> bit_at ?u p)"
      using position_split [of p ?k] \<open>?n = Suc (?k div 8)\<close> by (auto simp add: bit_at_def)
    finally show ?thesis .
  qed
  have lenv: "length v' = ?n"
    by (simp add: v'_def)
  have "consistent (recalculate_size (?result\<lparr>set_fld := v'\<rparr>))"
    by (rule consistent_recalculate) (simp_all add: lenv len bits)
  then have "well_formed (recalculate_size (?result\<lparr>set_fld := v'\<rparr>))"
    using wf by (simp add: well_formed_def recalculate_fields lenv)
  with run bits show ?thesis
    by (intro exI [of _ "recalculate_size (?result\<lparr>set_fld := v'\<rparr>)"]) (simp add: recalculate_fields)
qed

lemma op_not_consistent:
  assumes cons: "consistent s" and run: "op_not s = Inr s'"
  shows "consistent s'"
proof -
  from consistent_cases [OF cons] show ?thesis
  proof
    assume wf: "well_formed s"
    have "capacity_fld s \<noteq> 0"
      using run by (auto simp add: op_not_def binary_set_ctor_def)
    from op_not_well_formed [OF wf this] run show ?thesis
      by (auto simp add: well_formed_def)
  next
    assume "set_fld s = [] \<and> capacity_fld s \<noteq> 0 \<and> unat (capacity_fld s) mod 8 \<noteq> 0"
    then have "op_not s = Inl out_of_bounds"
      using cons
      by (simp add: op_not_def binary_set_ctor_def consistent_def mask_last_def word_mod8_zero Let_def)
    with run show ?thesis by simp
  qed
qed

subsection \<open>Every set of the interface is consistent\<close>

lemma add_consistent:
  assumes cons: "consistent s" and run: "add s e = (r, s')"
  shows "consistent s'"
proof -
  from add_outcomes [OF run] show ?thesis
  proof
    assume "s' = s \<and> r \<noteq> Inr True"
    with cons show ?thesis by simp
  next
    assume h: "r = Inr True \<and> validate_element s e = Inr () \<and> contains s e = Inr False
      \<and> s' = s\<lparr>set_fld := (set_fld s)[unat (e div 8) :=
                       ucast ((ucast (set_fld s ! unat (e div 8)) :: 32 word) OR push_bit (unat (e mod 8)) 1)],
                    size_fld := size_fld s + 1\<rparr>"
    then have "set_fld s \<noteq> []"
      using contains_Inr_store by blast
    with consistent_cases [OF cons] have wf: "well_formed s"
      by blast
    from h have e: "e < capacity_fld s"
      by (simp add: validate_element_ok)
    from h contains_well_formed [OF wf e] have "\<not> bit_at (set_fld s) (unat e)"
      by simp
    from add_absent [OF wf e this] run show ?thesis
      by (auto simp add: well_formed_def)
  qed
qed

lemma remove_consistent:
  assumes cons: "consistent s" and run: "remove s e = (r, s')"
  shows "consistent s'"
proof -
  from remove_outcomes [OF run] show ?thesis
  proof
    assume "s' = s \<and> r \<noteq> Inr True"
    with cons show ?thesis by simp
  next
    assume h: "r = Inr True \<and> validate_element s e = Inr () \<and> contains s e = Inr True
      \<and> s' = s\<lparr>set_fld := (set_fld s)[unat (e div 8) :=
                       ucast ((ucast (set_fld s ! unat (e div 8)) :: 32 word) AND NOT (push_bit (unat (e mod 8)) 1))],
                    size_fld := size_fld s - 1\<rparr>"
    then have "set_fld s \<noteq> []"
      using contains_Inr_store by blast
    with consistent_cases [OF cons] have wf: "well_formed s"
      by blast
    from h have e: "e < capacity_fld s"
      by (simp add: validate_element_ok)
    from h contains_well_formed [OF wf e] have "bit_at (set_fld s) (unat e)"
      by simp
    from remove_present [OF wf e this] run show ?thesis
      by (auto simp add: well_formed_def)
  qed
qed

lemma op_consistent:
  assumes "consistent s" and "consistent other"
  shows "op_and s other = Inr s' \<Longrightarrow> consistent s'"
    and "op_or s other = Inr s' \<Longrightarrow> consistent s'"
    and "op_minus s other = Inr s' \<Longrightarrow> consistent s'"
    and "op_and_assign s other = (r, s') \<Longrightarrow> consistent s'"
    and "op_or_assign s other = (r, s') \<Longrightarrow> consistent s'"
    and "op_minus_assign s other = (r, s') \<Longrightarrow> consistent s'"
  unfolding op_and_def op_or_def op_minus_def op_and_assign_def op_or_assign_def op_minus_assign_def
  using assms bit_ops_sound
  by (blast intro: bin_op_consistent bin_op_assign_consistent)+

lemma reach_consistent: "reach s \<Longrightarrow> consistent s"
proof (induction rule: reach.induct)
  case reach_default
  show ?case by (rule default_consistent)
next
  case (reach_ctor c f s)
  then show ?case by (simp add: ctor_consistent)
next
  case (reach_add s e r s')
  then show ?case by (simp add: add_consistent)
next
  case (reach_remove s e r s')
  then show ?case by (simp add: remove_consistent)
next
  case (reach_clear s)
  then show ?case by (simp add: clear_consistent)
next
  case (reach_fill s r s')
  then show ?case by (simp add: fill_consistent)
next
  case (reach_and s other s')
  then show ?case by (blast intro: op_consistent(1))
next
  case (reach_or s other s')
  then show ?case by (blast intro: op_consistent(2))
next
  case (reach_minus s other s')
  then show ?case by (blast intro: op_consistent(3))
next
  case (reach_and_assign s other r s')
  then show ?case by (blast intro: op_consistent(4))
next
  case (reach_or_assign s other r s')
  then show ?case by (blast intro: op_consistent(5))
next
  case (reach_minus_assign s other r s')
  then show ?case by (blast intro: op_consistent(6))
next
  case (reach_not s s')
  then show ?case by (simp add: op_not_consistent)
qed

lemma of_nat_below_capacity:
  fixes c :: "32 word"
  assumes "i < unat c"
  shows "of_nat i < c" and "unat (of_nat i :: 32 word) = i"
proof -
  have "i < 2 ^ LENGTH(32)"
    using assms unsigned_less [of c, where 'a = nat] by simp
  then show u: "unat (of_nat i :: 32 word) = i"
    by (simp only: unat_of_nat mod_less)
  show "of_nat i < c"
    using assms u by (simp add: word_less_nat_alt)
qed

lemma count_contained_consistent:
  assumes cons: "consistent s"
  shows "unat (size_fld s) = count_contained s"
proof -
  let ?k = "unat (capacity_fld s)"
  let ?v = "set_fld s"
  from consistent_cases [OF cons] show ?thesis
  proof
    assume wf: "well_formed s"
    have "filter (\<lambda>i. contains s (of_nat i) = Inr True) [0..<?k] = filter (bit_at ?v) [0..<?k]"
    proof (rule filter_cong)
      fix i
      assume "i \<in> set [0..<?k]"
      then have i: "i < ?k" by simp
      show "(contains s (of_nat i) = Inr True) = bit_at ?v i"
        using contains_well_formed [OF wf of_nat_below_capacity(1) [OF i]] of_nat_below_capacity(2) [OF i]
        by simp
    qed simp
    moreover have "?k \<le> 8 * length ?v"
      using wf by (simp add: well_formed_def)
    then have "[0..<8 * length ?v] = [0..<?k] @ [?k..<8 * length ?v]"
      using upt_add_eq_append [of 0 ?k "8 * length ?v - ?k"] by simp
    moreover have "filter (bit_at ?v) [?k..<8 * length ?v] = []"
      using cons by (simp add: consistent_def list_all_iff filter_empty_conv)
    moreover have "unat (size_fld s) = length (filter (bit_at ?v) [0..<8 * length ?v])"
      using cons by (simp add: consistent_def)
    ultimately show ?thesis
      by (simp add: count_contained_def capacity_def)
  next
    assume "?v = [] \<and> capacity_fld s \<noteq> 0 \<and> ?k mod 8 \<noteq> 0"
    then have e: "?v = []" by simp
    then have "contains s x \<noteq> Inr True" for x
      using contains_Inr_store [of s x True] by auto
    then have "count_contained s = 0"
      by (simp add: count_contained_def)
    moreover have "unat (size_fld s) = 0"
      using cons e by (simp add: consistent_def)
    ultimately show ?thesis by simp
  qed
qed

lemma size_is_recalculated:
  assumes cons: "consistent s"
  shows "size_fld s = size_fld (recalculate_size s)"
proof -
  have "unat (size_fld (recalculate_size (s\<lparr>set_fld := set_fld s\<rparr>)))
      = length (filter (bit_at (set_fld s)) [0..<8 * length (set_fld s)])"
    using length_bytes_bound [OF cons] by (rule size_recalculate)
  then have "unat (size_fld (recalculate_size s)) = unat (size_fld s)"
    using cons by (simp add: consistent_def)
  then show ?thesis
    by (simp add: word_unat_eq_iff)
qed

section \<open>Size and membership\<close>

text \<open>
  C4: for every set that the interface produces (construction with or without fill,
  \<open>add\<close>, \<open>remove\<close>, \<open>clear\<close>, \<open>fill\<close>, the copying and in-place boolean operations,
  the complement), \<open>size()\<close> is the number of indices below the capacity for which
  \<open>contains\<close> returns true; it is what \<open>recalculate_size\<close> counts in the backing
  store, and no bit is set at or beyond the capacity.
\<close>

theorem size_counts_members:
  assumes "reach s"
  shows "unat (size_of s) = count_contained s
    \<and> size_of s = size_of (recalculate_size s)
    \<and> list_all (\<lambda>p. \<not> bit_at (set_fld s) p) [unat (capacity s)..<8 * length (set_fld s)]"
proof -
  have cons: "consistent s"
    using assms by (rule reach_consistent)
  have "unat (size_of s) = count_contained s"
    unfolding size_of_def using cons by (rule count_contained_consistent)
  moreover have "size_of s = size_of (recalculate_size s)"
    unfolding size_of_def using cons by (rule size_is_recalculated)
  moreover have "list_all (\<lambda>p. \<not> bit_at (set_fld s) p) [unat (capacity s)..<8 * length (set_fld s)]"
    using cons unfolding consistent_def capacity_def by (elim conjE)
  ultimately show ?thesis
    by (intro conjI)
qed

theorem size_counts_members_witness:
  "reach \<lparr>capacity_fld = 10, size_fld = 1, set_fld = [8, 0]\<rparr>
   \<and> unat (size_of \<lparr>capacity_fld = 10, size_fld = 1, set_fld = [8, 0]\<rparr>) = 1
   \<and> count_contained \<lparr>capacity_fld = 10, size_fld = 1, set_fld = [8, 0]\<rparr> = 1"
proof -
  have c: "binary_set_ctor 10 False = Inr \<lparr>capacity_fld = 10, size_fld = 0, set_fld = [0, 0]\<rparr>"
    by code_simp
  have a: "add \<lparr>capacity_fld = 10, size_fld = 0, set_fld = [0, 0]\<rparr> 3
      = (Inr True, \<lparr>capacity_fld = 10, size_fld = 1, set_fld = [8, 0]\<rparr>)"
    by code_simp
  have r: "reach \<lparr>capacity_fld = 10, size_fld = 1, set_fld = [8, 0]\<rparr>"
    by (rule reach_add [OF reach_ctor [OF c] a]) simp
  have "unat (size_of \<lparr>capacity_fld = 10, size_fld = 1, set_fld = [8, 0]\<rparr>) = 1"
    by (simp add: size_of_def)
  with size_counts_members [OF r] r show ?thesis
    by simp
qed

section \<open>Insertion followed by removal\<close>

text \<open>
  C5, as stated, fails for an element that is already present: \<open>add\<close> then changes
  nothing and \<open>remove\<close> takes the element away, so the size ends one below its prior
  value.  Here the set \<open>{0}\<close> of capacity 8, as \<open>binary_set(8)\<close> and \<open>add(0)\<close> build it.
\<close>

theorem add_remove_size_counterexample:
  "binary_set_ctor 8 False = Inr \<lparr>capacity_fld = 8, size_fld = 0, set_fld = [0]\<rparr>
   \<and> add \<lparr>capacity_fld = 8, size_fld = 0, set_fld = [0]\<rparr> 0
       = (Inr True, \<lparr>capacity_fld = 8, size_fld = 1, set_fld = [1]\<rparr>)
   \<and> (0 :: 32 word) < capacity \<lparr>capacity_fld = 8, size_fld = 1, set_fld = [1]\<rparr>
   \<and> size_of \<lparr>capacity_fld = 8, size_fld = 1, set_fld = [1]\<rparr> = 1
   \<and> size_of (snd (remove (snd (add \<lparr>capacity_fld = 8, size_fld = 1, set_fld = [1]\<rparr> 0)) 0)) = 0"
  by code_simp

text \<open>
  C5, amended: on a well-formed set and for an element below the capacity, \<open>add\<close> and then
  \<open>remove\<close> both return, \<open>remove\<close> returns true and leaves the element absent; the size
  is the prior one when the element was absent before the \<open>add\<close>, and one less when it
  was present.
\<close>

theorem add_then_remove:
  assumes wf: "well_formed s" and e: "e < capacity s"
  shows "\<exists>b s1 s2. add s e = (Inr b, s1) \<and> remove s1 e = (Inr True, s2)
           \<and> contains s2 e = Inr False
           \<and> (contains s e = Inr False \<longrightarrow> size_of s2 = size_of s)
           \<and> (contains s e = Inr True \<longrightarrow> size_of s2 + 1 = size_of s)"
proof -
  from e have e': "e < capacity_fld s"
    by (simp add: capacity_def)
  note c = contains_well_formed [OF wf e']
  show ?thesis
  proof (cases "bit_at (set_fld s) (unat e)")
    case True
    from remove_present [OF wf e' True] obtain s2 where s2: "remove s e = (Inr True, s2)"
      "well_formed s2" "capacity_fld s2 = capacity_fld s"
      "\<forall>p. bit_at (set_fld s2) p = (bit_at (set_fld s) p \<and> p \<noteq> unat e)"
      "Suc (unat (size_fld s2)) = unat (size_fld s)"
      by blast
    have "contains s2 e = Inr False"
      using contains_well_formed [of s2 e] s2 e' by simp
    moreover have "size_fld s2 + 1 = size_fld s"
    proof -
      have "unat (size_fld s) < 2 ^ 64"
        using unsigned_less [of "size_fld s", where 'a = nat] by simp
      then have "(unat (size_fld s2) + 1) mod 2 ^ 64 = unat (size_fld s)"
        using s2(5) by simp
      then have "unat (size_fld s2 + 1) = unat (size_fld s)"
        by (simp add: unat_word_ariths)
      then show ?thesis
        by (simp add: word_unat_eq_iff)
    qed
    ultimately show ?thesis
      using add_present [OF wf e' True] s2(1) c True by (auto simp add: size_of_def)
  next
    case False
    from add_absent [OF wf e' False] obtain s1 where s1: "add s e = (Inr True, s1)"
      "well_formed s1" "capacity_fld s1 = capacity_fld s"
      "\<forall>p. bit_at (set_fld s1) p = (bit_at (set_fld s) p \<or> p = unat e)"
      "unat (size_fld s1) = Suc (unat (size_fld s))"
      by blast
    have e1: "e < capacity_fld s1" and p1: "bit_at (set_fld s1) (unat e)"
      using s1 e' by simp_all
    from remove_present [OF s1(2) e1 p1] obtain s2 where s2: "remove s1 e = (Inr True, s2)"
      "well_formed s2" "capacity_fld s2 = capacity_fld s1"
      "\<forall>p. bit_at (set_fld s2) p = (bit_at (set_fld s1) p \<and> p \<noteq> unat e)"
      "Suc (unat (size_fld s2)) = unat (size_fld s1)"
      by blast
    have "contains s2 e = Inr False"
      using contains_well_formed [of s2 e] s2 e1 by simp
    moreover have "unat (size_fld s2) = unat (size_fld s)"
      using s1(5) s2(5) by simp
    then have "size_fld s2 = size_fld s"
      by (simp add: word_unat_eq_iff)
    ultimately show ?thesis
      using s1(1) s2(1) c False by (auto simp add: size_of_def)
  qed
qed

theorem add_then_remove_witness:
  "well_formed \<lparr>capacity_fld = 10, size_fld = 1, set_fld = [8, 0]\<rparr>
   \<and> (5 :: 32 word) < capacity \<lparr>capacity_fld = 10, size_fld = 1, set_fld = [8, 0]\<rparr>
   \<and> contains \<lparr>capacity_fld = 10, size_fld = 1, set_fld = [8, 0]\<rparr> 5 = Inr False
   \<and> (\<exists>b s1 s2. add \<lparr>capacity_fld = 10, size_fld = 1, set_fld = [8, 0]\<rparr> 5 = (Inr b, s1)
         \<and> remove s1 5 = (Inr True, s2) \<and> contains s2 5 = Inr False
         \<and> size_of s2 = size_of \<lparr>capacity_fld = 10, size_fld = 1, set_fld = [8, 0]\<rparr>)"
proof -
  have wf: "well_formed \<lparr>capacity_fld = 10, size_fld = 1, set_fld = [8, 0]\<rparr>"
    by code_simp
  have e: "(5 :: 32 word) < capacity \<lparr>capacity_fld = 10, size_fld = 1, set_fld = [8, 0]\<rparr>"
    by code_simp
  have c: "contains \<lparr>capacity_fld = 10, size_fld = 1, set_fld = [8, 0]\<rparr> 5 = Inr False"
    by code_simp
  from add_then_remove [OF wf e] c wf e show ?thesis
    by auto
qed

section \<open>De Morgan\<close>




section \<open>Failure kinds of \<open>binary_set\<close>\<close>

text \<open>
  C8: on a default-constructed set (capacity 0) the complement fails with the
  invalid-argument exception of the constructor, while \<open>add\<close>, \<open>remove\<close>,
  \<open>contains\<close> and \<open>sparse\<close> fail with the domain exception, and \<open>clear\<close>, \<open>fill\<close>, \<open>empty\<close> and
  \<open>size\<close> succeed.
\<close>

theorem default_set_failures:
  "op_not binary_set_default = Inl (invalid_argument msg_capacity_zero)
   \<and> fst (add binary_set_default e) = Inl (domain_error msg_domain)
   \<and> fst (remove binary_set_default e) = Inl (domain_error msg_domain)
   \<and> contains binary_set_default e = Inl (domain_error msg_domain)
   \<and> sparse binary_set_default = Inl (domain_error msg_domain)
   \<and> clear binary_set_default = binary_set_default
   \<and> fill binary_set_default = (Inr (), binary_set_default)
   \<and> empty binary_set_default
   \<and> size_of binary_set_default = 0"
  by (simp add: op_not_def binary_set_ctor_def add_def remove_def contains_def
      validate_element_def sparse_def clear_def fill_def empty_def size_of_def
      binary_set_default_def)

section \<open>Reading a well-formed set\<close>

lemma key_of_length: "length (key_of bs) = unat (capacity bs)"
  by (simp add: key_of_def)

lemma subscript_key:
  assumes wf: "well_formed bs" and i: "i < unat (capacity bs)"
  shows "subscript bs (of_nat i) = Inr (key_of bs ! i)"
proof -
  from i have i': "i < unat (capacity_fld bs)"
    by (simp add: capacity_def)
  have "contains bs (of_nat i) = Inr (bit_at (set_fld bs) i)"
    using contains_well_formed [OF wf of_nat_below_capacity(1) [OF i']] of_nat_below_capacity(2) [OF i']
    by simp
  then show ?thesis
    using i by (simp add: subscript_def key_of_def)
qed

section \<open>The loops as functions of the key\<close>

lemma add_loop_ins:
  assumes "\<And>j. j < n \<Longrightarrow> subscript bs (of_nat j) = Inr (k ! j)" and "length k = n"
  shows "i \<le> n \<Longrightarrow> add_loop bs v n i t = (Inr (), ins (drop i k) v t)"
proof (induction "n - i" arbitrary: i t)
  case 0
  then have "drop i k = []" and "\<not> i < n"
    using assms(2) by simp_all
  then show ?case
    by (subst add_loop.simps) simp
next
  case (Suc m)
  then have lt: "i < n" by simp
  then have rd: "subscript bs (of_nat i) = Inr (k ! i)"
    by (rule assms(1))
  have dr: "drop i k = k ! i # drop (Suc i) k"
    using lt assms(2) by (simp add: Cons_nth_drop_Suc)
  let ?child = "case get_child t (k ! i) of None \<Rightarrow> new_node | Some c \<Rightarrow> c"
  have "add_loop bs v n (Suc i) ?child = (Inr (), ins (drop (Suc i) k) v ?child)"
    using Suc.hyps(2) lt by (intro Suc.hyps(1)) simp_all
  then show ?case
    using lt rd by (subst add_loop.simps) (simp add: dr)
qed

lemma descend_walk:
  assumes "\<And>j. j < n \<Longrightarrow> subscript bs (of_nat j) = Inr (k ! j)" and "length k = n"
  shows "i \<le> n \<Longrightarrow> descend bs n i c path = Inr (walk c (drop i k), trail c (drop i k) path)"
proof (induction "n - i" arbitrary: i c path)
  case 0
  then have "drop i k = []" and "\<not> i < n"
    using assms(2) by simp_all
  then show ?case
    by (subst descend.simps) (simp split: option.split)
next
  case (Suc m)
  then have lt: "i < n" by simp
  then have rd: "subscript bs (of_nat i) = Inr (k ! i)"
    by (rule assms(1))
  have dr: "drop i k = k ! i # drop (Suc i) k"
    using lt assms(2) by (simp add: Cons_nth_drop_Suc)
  show ?case
  proof (cases c)
    case None
    then show ?thesis
      by (subst descend.simps) (simp add: dr)
  next
    case (Some nd)
    have "descend bs n (Suc i) (get_child nd (k ! i)) ((nd, k ! i) # path)
        = Inr (walk (get_child nd (k ! i)) (drop (Suc i) k),
               trail (get_child nd (k ! i)) (drop (Suc i) k) ((nd, k ! i) # path))"
      using Suc.hyps(2) lt by (intro Suc.hyps(1)) simp_all
    then show ?thesis
      using lt rd Some by (subst descend.simps) (simp add: dr)
  qed
qed

lemma level_step_children:
  assumes "subscript bs (of_nat i) = Inr q"
  shows "level_step bs i cur acc = Inr (acc @ concat (map (children q) cur))"
  using assms by (induction cur arbitrary: acc) (auto simp add: children_def)

lemma frontier_Nil: "frontier qs [] = []"
  by (induction qs) simp_all

lemma levels_frontier:
  assumes "\<And>j. j < n \<Longrightarrow> subscript bs (of_nat j) = Inr (k ! j)" and "length k = n"
  shows "i \<le> n \<Longrightarrow> levels bs n i cur = Inr (frontier (drop i k) cur)"
proof (induction "n - i" arbitrary: i cur)
  case 0
  then have "drop i k = []" and "\<not> i < n"
    using assms(2) by simp_all
  then show ?case
    by (subst levels.simps) simp
next
  case (Suc m)
  then have lt: "i < n" by simp
  then have rd: "subscript bs (of_nat i) = Inr (k ! i)"
    by (rule assms(1))
  have dr: "drop i k = k ! i # drop (Suc i) k"
    using lt assms(2) by (simp add: Cons_nth_drop_Suc)
  show ?case
  proof (cases "cur = []")
    case True
    then show ?thesis
      by (subst levels.simps) (simp add: frontier_Nil)
  next
    case False
    have st: "level_step bs i cur [] = Inr (concat (map (children (k ! i)) cur))"
      using level_step_children [OF rd, of cur "[]"] by simp
    have "levels bs n (Suc i) (concat (map (children (k ! i)) cur))
        = Inr (frontier (drop (Suc i) k) (concat (map (children (k ! i)) cur)))"
      using Suc.hyps(2) lt by (intro Suc.hyps(1)) simp_all
    then show ?thesis
      using lt st False by (subst levels.simps) (simp add: dr)
  qed
qed

section \<open>Entries of a tree\<close>

lemma sub_entries_simps [simp]:
  "sub_entries b None = {#}"
  "sub_entries b (Some t) = image_mset (\<lambda>(k, v). (b # k, v)) (entries t)"
  by (simp_all add: sub_entries_def)

lemma entries_treenode:
  "entries (treenode vs l r) = image_mset (Pair []) (mset vs) + sub_entries False l + sub_entries True r"
  by (simp add: sub_entries_def)

declare entries.simps [simp del]

lemma entries_unfold:
  "entries t = image_mset (Pair []) (mset (node_values t))
     + sub_entries False (left t) + sub_entries True (right t)"
  by (cases t) (simp add: entries_treenode)

lemma entries_new_node [simp]: "entries new_node = {#}"
  by (simp add: new_node_def entries_treenode)

lemma entries_set_child:
  "entries (set_child t b c) = entries (set_child t b None) + sub_entries b c"
  by (cases b) (simp_all add: set_child_def entries_treenode)

lemma entries_split_child:
  "entries t = entries (set_child t b None) + sub_entries b (get_child t b)"
  by (cases b)
    (simp_all add: set_child_def get_child_def entries_treenode entries_unfold [of t])

lemma entries_ins: "entries (ins k v t) = entries t + {#(k, v)#}"
proof (induction k arbitrary: t)
  case Nil
  show ?case
    by (simp add: entries_treenode entries_unfold [of t])
next
  case (Cons b k)
  let ?child = "case get_child t b of None \<Rightarrow> new_node | Some c \<Rightarrow> c"
  have "sub_entries b (get_child t b) = image_mset (\<lambda>(k, v). (b # k, v)) (entries ?child)"
    by (cases "get_child t b") simp_all
  then have "entries t = entries (set_child t b None) + image_mset (\<lambda>(k, v). (b # k, v)) (entries ?child)"
    using entries_split_child [of t b] by simp
  moreover have "entries (ins (b # k) v t)
      = entries (set_child t b None) + image_mset (\<lambda>(k, v). (b # k, v)) (entries (ins k v ?child))"
    using entries_set_child [of t b "Some (ins k v ?child)"] by simp
  ultimately show ?case
    by (simp add: Cons.IH)
qed

lemma entries_member:
  "(k, v) \<in># entries t \<longleftrightarrow> (\<exists>nd. walk (Some t) k = Some nd \<and> v \<in> set (node_values nd))"
proof (induction k arbitrary: t)
  case Nil
  show ?case
    by (subst entries_unfold) (auto simp add: sub_entries_def split: option.splits)
next
  case (Cons b k)
  have "(b # k, v) \<in># entries t \<longleftrightarrow> (b # k, v) \<in># sub_entries b (get_child t b)"
    by (subst entries_unfold) (cases b; auto simp add: sub_entries_def get_child_def split: option.splits)
  also have "\<dots> \<longleftrightarrow> (\<exists>nd. walk (get_child t b) k = Some nd \<and> v \<in> set (node_values nd))"
  proof (cases "get_child t b")
    case None
    then show ?thesis by (cases k) simp_all
  next
    case (Some c)
    then have "(b # k, v) \<in># sub_entries b (get_child t b) \<longleftrightarrow> (k, v) \<in># entries c"
      by auto
    with Some Cons.IH [of c] show ?thesis by simp
  qed
  finally show ?case by simp
qed

section \<open>The query\<close>

lemma sub_entries_filter_Nil: "filter_mset (\<lambda>(k, v). k = []) (sub_entries b c) = {#}"
  by (cases c) (simp_all add: filter_mset_image_mset case_prod_unfold)

lemma matches_Nil: "matches [] t = mset (node_values t)"
proof -
  have "filter_mset (\<lambda>(k, v). k = []) (entries t) = image_mset (Pair []) (mset (node_values t))"
    by (subst entries_unfold) (simp add: sub_entries_filter_Nil filter_mset_image_mset)
  then show ?thesis
    by (simp add: matches_def image_mset.compositionality o_def)
qed

lemma matches_sub:
  "image_mset snd (filter_mset (\<lambda>(k, v). list_all2 (\<lambda>a b. a \<longrightarrow> b) k (q # qs)) (sub_entries b c))
     = (if b \<longrightarrow> q then sum_list (map (matches qs) (opt_list c)) else {#})"
proof (cases c)
  case None
  then show ?thesis by (simp add: opt_list_def)
next
  case (Some t)
  have "filter_mset (\<lambda>(k, v). list_all2 (\<lambda>a b. a \<longrightarrow> b) k (q # qs)) (sub_entries b c)
      = image_mset (\<lambda>(k, v). (b # k, v))
          (filter_mset (\<lambda>(k, v). (b \<longrightarrow> q) \<and> list_all2 (\<lambda>a b. a \<longrightarrow> b) k qs) (entries t))"
    using Some by (simp add: filter_mset_image_mset case_prod_unfold)
  then show ?thesis
    using Some
    by (cases "b \<longrightarrow> q")
      (simp_all add: opt_list_def matches_def image_mset.compositionality o_def case_prod_unfold)
qed

lemma matches_Cons: "matches (q # qs) t = sum_list (map (matches qs) (children q t))"
proof -
  have "filter_mset (\<lambda>(k, v). list_all2 (\<lambda>a b. a \<longrightarrow> b) k (q # qs))
      (image_mset (Pair []) (mset (node_values t))) = {#}"
    by (simp add: filter_mset_image_mset)
  then have "matches (q # qs) t
      = image_mset snd (filter_mset (\<lambda>(k, v). list_all2 (\<lambda>a b. a \<longrightarrow> b) k (q # qs)) (sub_entries False (left t)))
      + image_mset snd (filter_mset (\<lambda>(k, v). list_all2 (\<lambda>a b. a \<longrightarrow> b) k (q # qs)) (sub_entries True (right t)))"
    unfolding matches_def by (subst entries_unfold) simp
  then show ?thesis
    by (simp only: matches_sub) (simp add: children_def)
qed

lemma frontier_matches:
  "mset (concat (map node_values (frontier q ts))) = sum_list (map (matches q) ts)"
proof (induction q arbitrary: ts)
  case Nil
  show ?case
    by (induction ts) (simp_all add: matches_Nil)
next
  case (Cons b q)
  have "sum_list (map (matches q) (concat (map (children b) ts))) = sum_list (map (matches (b # q)) ts)"
    by (induction ts) (simp_all add: matches_Cons)
  then show ?case
    by (simp add: Cons.IH)
qed

section \<open>The stack of parents\<close>

lemma set_child_get_child: "get_child t b = Some c \<Longrightarrow> set_child t b (Some c) = t"
  by (cases t; cases b) (simp_all add: get_child_def set_child_def)

lemma get_child_set_child [simp]: "get_child (set_child t b c) b = c"
  by (cases b) (simp_all add: get_child_def set_child_def)

lemma walk_None [simp]: "walk None k = None"
  by (cases k) simp_all

lemma rebuild_trail:
  "walk (Some t) k = Some nd \<Longrightarrow> rebuild nd (trail (Some t) k path) = rebuild t path"
proof (induction k arbitrary: t path)
  case Nil
  then show ?case by simp
next
  case (Cons b k)
  then obtain c where c: "get_child t b = Some c"
    by (cases "get_child t b") simp_all
  with Cons.prems have "walk (Some c) k = Some nd"
    by simp
  then have "rebuild nd (trail (Some c) k ((t, b) # path)) = rebuild c ((t, b) # path)"
    by (rule Cons.IH)
  then show ?case
    using c by (simp add: set_child_get_child)
qed

lemma dirs_trail:
  "walk (Some t) k = Some nd \<Longrightarrow> dirs (trail (Some t) k path) = dirs path @ k"
proof (induction k arbitrary: t path)
  case Nil
  then show ?case by simp
next
  case (Cons b k)
  then obtain c where c: "get_child t b = Some c"
    by (cases "get_child t b") simp_all
  with Cons.prems have "walk (Some c) k = Some nd"
    by simp
  then have "dirs (trail (Some c) k ((t, b) # path)) = dirs ((t, b) # path) @ k"
    by (rule Cons.IH)
  then show ?case
    using c by (simp add: dirs_def)
qed

lemma image_prefix_append:
  "image_mset (\<lambda>(k, v). (d @ k, v)) (image_mset (\<lambda>(k, v). (b # k, v)) M)
     = image_mset (\<lambda>(k, v). ((d @ [b]) @ k, v)) M"
  by (simp add: image_mset.compositionality o_def case_prod_unfold)

lemma entries_rebuild:
  "entries (rebuild x path) = ctx_entries path + image_mset (\<lambda>(k, v). (dirs path @ k, v)) (entries x)"
proof (induction path arbitrary: x)
  case Nil
  show ?case by (simp add: dirs_def)
next
  case (Cons pb path)
  obtain p b where pb: "pb = (p, b)" by (cases pb)
  have "entries (rebuild x (pb # path))
      = ctx_entries path + image_mset (\<lambda>(k, v). (dirs path @ k, v)) (entries (set_child p b (Some x)))"
    by (simp add: pb Cons.IH)
  also have "entries (set_child p b (Some x))
      = entries (set_child p b None) + image_mset (\<lambda>(k, v). (b # k, v)) (entries x)"
    using entries_set_child [of p b "Some x"] by simp
  finally show ?case
    by (simp add: pb image_prefix_append dirs_def)
qed

lemma dead_entries: "dead x \<Longrightarrow> entries x = {#}"
  by (cases x) (simp add: dead_def entries_treenode)

lemma dead_iff: "dead x \<longleftrightarrow> \<not> (node_values x \<noteq> [] \<or> left x \<noteq> None \<or> right x \<noteq> None)"
  by (simp add: dead_def)

lemma entries_prune: "dead x \<Longrightarrow> entries (prune x path) = ctx_entries path"
proof (induction path arbitrary: x)
  case Nil
  then show ?case by (simp add: dead_entries)
next
  case (Cons pb path)
  obtain p b where pb: "pb = (p, b)" by (cases pb)
  show ?case
  proof (cases "dead (set_child p b None)")
    case True
    then have "entries (prune x (pb # path)) = ctx_entries path"
      using Cons.IH [OF True] by (simp add: pb Let_def dead_iff)
    then show ?thesis
      using True by (simp add: pb dead_entries)
  next
    case False
    then have "prune x (pb # path) = rebuild (set_child p b None) path"
      by (simp add: pb Let_def dead_iff)
    then show ?thesis
      by (simp add: pb entries_rebuild)
  qed
qed

lemma walk_append: "walk c (k @ k') = walk (walk c k) k'"
proof (induction k arbitrary: c)
  case Nil
  show ?case by simp
next
  case (Cons b k)
  then show ?case by (cases c) simp_all
qed

lemma walk_rebuild: "walk (Some (rebuild x path)) (dirs path) = Some x"
proof (induction path arbitrary: x)
  case Nil
  show ?case by (simp add: dirs_def)
next
  case (Cons pb path)
  obtain p b where pb: "pb = (p, b)" by (cases pb)
  have "walk (Some (rebuild x (pb # path))) (dirs (pb # path))
      = walk (walk (Some (rebuild (set_child p b (Some x)) path)) (dirs path)) [b]"
    by (simp add: pb dirs_def walk_append)
  then show ?case
    by (simp add: Cons.IH)
qed

lemma walk_dead: "dead x \<Longrightarrow> leaf_values x k = []"
  by (cases k) (simp_all add: leaf_values_def dead_def get_child_def)

lemma leaf_values_prune: "dead x \<Longrightarrow> leaf_values (prune x path) (dirs path @ k) = []"
proof (induction path arbitrary: x k)
  case Nil
  then show ?case by (simp add: dirs_def walk_dead)
next
  case (Cons pb path)
  obtain p b where pb: "pb = (p, b)" by (cases pb)
  have d: "dirs (pb # path) @ k = dirs path @ (b # k)"
    by (simp add: pb dirs_def)
  show ?case
  proof (cases "dead (set_child p b None)")
    case True
    then have "prune x (pb # path) = prune (set_child p b None) path"
      by (simp add: pb Let_def dead_iff)
    then show ?thesis
      using Cons.IH [OF True, of "b # k"] by (simp add: d)
  next
    case False
    then have "prune x (pb # path) = rebuild (set_child p b None) path"
      by (simp add: pb Let_def dead_iff)
    then show ?thesis
      by (simp add: d leaf_values_def walk_append walk_rebuild)
  qed
qed

section \<open>The value list of the leaf\<close>

lemma find_pos_le: "find_pos vs v \<le> length vs"
  by (induction vs) simp_all

lemma find_pos_absent: "find_pos vs v = length vs \<longleftrightarrow> v \<notin> set vs"
  using find_pos_le [of _ v] by (induction vs) auto

lemma find_pos_nth: "v \<in> set vs \<Longrightarrow> vs ! find_pos vs v = v"
  by (induction vs) auto

lemma find_pos_first: "i < find_pos vs v \<Longrightarrow> vs ! i \<noteq> v"
proof (induction vs arbitrary: i)
  case Nil
  then show ?case by simp
next
  case (Cons a vs)
  then show ?case
    by (cases i) (auto split: if_splits)
qed

lemma mset_butlast: "vs \<noteq> [] \<Longrightarrow> mset (butlast vs) = mset vs - {#last vs#}"
proof -
  assume "vs \<noteq> []"
  then have "mset vs = mset (butlast vs @ [last vs])"
    by simp
  then show ?thesis
    by (simp del: append_butlast_last_id)
qed

lemma mset_swap_pop:
  assumes "k < length vs"
  shows "mset (swap_pop vs k) = mset vs - {#vs ! k#}"
proof (cases "k = length vs - 1")
  case True
  have nonempty: "vs \<noteq> []"
    using assms by auto
  then have "vs ! k = last vs"
    using True by (simp add: last_conv_nth)
  with True nonempty show ?thesis
    by (simp add: swap_pop_def mset_butlast)
next
  case False
  let ?ws = "vs[k := last vs]"
  have nonempty: "vs \<noteq> []"
    using assms by auto
  then have ne: "?ws \<noteq> []"
    by simp
  have l: "last ?ws = last vs"
    using nonempty False by (simp add: last_conv_nth)
  have "mset (butlast ?ws) = mset ?ws - {#last vs#}"
    using mset_butlast [OF ne] l by simp
  also have "\<dots> = mset vs - {#vs ! k#}"
    using assms by (simp add: mset_update)
  finally show ?thesis
    using False by (simp add: swap_pop_def)
qed

section \<open>Trees without dead nodes\<close>

lemma pruned_set_child_None: "pruned t \<Longrightarrow> pruned (set_child t b None)"
  by (cases t; cases b) (simp_all add: set_child_def)

lemma pruned_set_child_Some:
  "pruned (set_child t b (Some x)) \<longleftrightarrow> pruned (set_child t b None) \<and> \<not> dead x \<and> pruned x"
  by (cases t; cases b) (auto simp add: set_child_def)

lemma pruned_child: "pruned t \<Longrightarrow> get_child t b = Some c \<Longrightarrow> \<not> dead c \<and> pruned c"
  by (cases t; cases b) (simp_all add: get_child_def)

lemma not_dead_set_child: "\<not> dead (set_child t b (Some x))"
  by (cases b) (simp_all add: dead_def set_child_def)

lemma pruned_new_node: "pruned new_node"
  by (simp add: new_node_def)

lemma pruned_values: "pruned (treenode vs (left t) (right t)) = pruned t"
  by (cases t) simp

lemma pruned_ins: "pruned t \<Longrightarrow> pruned (ins k v t) \<and> \<not> dead (ins k v t)"
proof (induction k arbitrary: t)
  case Nil
  then show ?case
    by (cases t) (simp add: dead_def)
next
  case (Cons b k)
  let ?child = "case get_child t b of None \<Rightarrow> new_node | Some c \<Rightarrow> c"
  have "pruned ?child"
    using Cons.prems pruned_child [of t b] by (cases "get_child t b") (simp_all add: pruned_new_node)
  then have "pruned (ins k v ?child) \<and> \<not> dead (ins k v ?child)"
    by (rule Cons.IH)
  then show ?case
    using Cons.prems by (simp add: pruned_set_child_Some pruned_set_child_None not_dead_set_child)
qed

lemma pruned_trail:
  assumes "walk (Some t) k = Some nd" and "pruned t" and "pruned_around path"
  shows "pruned_around (trail (Some t) k path) \<and> pruned nd"
  using assms
proof (induction k arbitrary: t path)
  case Nil
  then show ?case by simp
next
  case (Cons b k)
  then obtain c where c: "get_child t b = Some c"
    by (cases "get_child t b") simp_all
  with Cons.prems have w: "walk (Some c) k = Some nd"
    by simp
  have "pruned c"
    using pruned_child [OF Cons.prems(2) c] by simp
  moreover have "pruned_around ((t, b) # path)"
    using Cons.prems(2,3) by (simp add: pruned_around_def pruned_set_child_None)
  ultimately have "pruned_around (trail (Some c) k ((t, b) # path)) \<and> pruned nd"
    using w by (intro Cons.IH)
  then show ?case
    using c by simp
qed

lemma pruned_rebuild:
  assumes "pruned_around path" and "pruned x" and "path \<noteq> [] \<longrightarrow> \<not> dead x"
  shows "pruned (rebuild x path)"
  using assms
proof (induction path arbitrary: x)
  case Nil
  then show ?case by simp
next
  case (Cons pb path)
  obtain p b where pb: "pb = (p, b)" by (cases pb)
  have "pruned (set_child p b (Some x))"
    using Cons.prems by (simp add: pb pruned_around_def pruned_set_child_Some)
  moreover have "pruned_around path"
    using Cons.prems(1) by (simp add: pruned_around_def)
  ultimately have "pruned (rebuild (set_child p b (Some x)) path)"
    using not_dead_set_child by (intro Cons.IH) simp_all
  then show ?case
    by (simp add: pb)
qed

lemma pruned_prune:
  assumes "pruned_around path" and "pruned x"
  shows "pruned (prune x path)"
  using assms
proof (induction path arbitrary: x)
  case Nil
  then show ?case by simp
next
  case (Cons pb path)
  obtain p b where pb: "pb = (p, b)" by (cases pb)
  have p': "pruned (set_child p b None)" and around: "pruned_around path"
    using Cons.prems(1) by (simp_all add: pb pruned_around_def)
  show ?case
  proof (cases "dead (set_child p b None)")
    case True
    then have "prune x (pb # path) = prune (set_child p b None) path"
      by (simp add: pb Let_def dead_iff)
    then show ?thesis
      using Cons.IH [OF around p'] by simp
  next
    case False
    then have "prune x (pb # path) = rebuild (set_child p b None) path"
      by (simp add: pb Let_def dead_iff)
    then show ?thesis
      using pruned_rebuild [OF around p'] False by simp
  qed
qed

section \<open>The three operations on a well-formed set of the index's capacity\<close>

lemma validate_capacity_ok:
  "index_capacity_fld sr = capacity bs \<Longrightarrow> validate_capacity sr bs = Inr ()"
  by (simp add: validate_capacity_def)

lemma validate_capacity_mismatch:
  "index_capacity_fld sr \<noteq> capacity bs
     \<Longrightarrow> validate_capacity sr bs = Inl (invalid_argument msg_unexpected_capacity)"
  by (simp add: validate_capacity_def)

lemma searcher_add_valid:
  assumes wf: "well_formed bs" and cap: "index_capacity_fld sr = capacity bs"
  shows "searcher_add sr v bs = (Inr (), sr\<lparr>root_fld := ins (key_of bs) v (root_fld sr)\<rparr>)"
proof -
  have "add_loop bs v (unat (capacity bs)) 0 (root_fld sr)
      = (Inr (), ins (drop 0 (key_of bs)) v (root_fld sr))"
    by (rule add_loop_ins) (simp_all add: subscript_key [OF wf] key_of_length)
  then show ?thesis
    using cap by (simp add: searcher_add_def validate_capacity_ok)
qed

lemma searcher_remove_valid:
  assumes wf: "well_formed bs" and cap: "index_capacity_fld sr = capacity bs"
  shows "searcher_remove sr v bs =
     (case walk (Some (root_fld sr)) (key_of bs) of
        None \<Rightarrow> (Inr False, sr)
      | Some nd \<Rightarrow>
          if v \<notin> set (node_values nd) then (Inr False, sr)
          else
            let node' = treenode (swap_pop (node_values nd) (find_pos (node_values nd) v)) (left nd) (right nd);
                path = trail (Some (root_fld sr)) (key_of bs) []
            in (Inr True, sr\<lparr>root_fld := (if dead node' then prune node' path else rebuild node' path)\<rparr>))"
proof -
  have "descend bs (unat (capacity bs)) 0 (Some (root_fld sr)) []
      = Inr (walk (Some (root_fld sr)) (drop 0 (key_of bs)), trail (Some (root_fld sr)) (drop 0 (key_of bs)) [])"
    by (rule descend_walk) (simp_all add: subscript_key [OF wf] key_of_length)
  then show ?thesis
    using cap
    by (simp add: searcher_remove_def validate_capacity_ok find_pos_absent Let_def dead_def
        split: option.split)
qed

lemma find_subsets_valid:
  assumes wf: "well_formed q" and cap: "index_capacity_fld sr = capacity q"
  shows "find_subsets sr q = Inr (concat (map node_values (frontier (key_of q) [root_fld sr])))"
proof -
  have "levels q (unat (capacity q)) 0 [root_fld sr] = Inr (frontier (drop 0 (key_of q)) [root_fld sr])"
    by (rule levels_frontier) (simp_all add: subscript_key [OF wf] key_of_length)
  then show ?thesis
    using cap by (simp add: find_subsets_def validate_capacity_ok)
qed

section \<open>Removal from the index\<close>

text \<open>
  C9: whenever \<open>bs_searcher::remove\<close> returns false, the index is the one before the
  call: no node was created or detached and no value list changed.
\<close>

theorem remove_false_unchanged:
  assumes "fst (searcher_remove sr v bs) = Inr False"
  shows "snd (searcher_remove sr v bs) = sr"
  using assms
  by (auto simp add: searcher_remove_def Let_def split: sum.splits option.splits prod.splits if_splits)

theorem remove_false_unchanged_witness:
  "fst (searcher_remove (bs_searcher_ctor 8) 5 \<lparr>capacity_fld = 8, size_fld = 1, set_fld = [2]\<rparr>) = Inr False
   \<and> snd (searcher_remove (bs_searcher_ctor 8) 5 \<lparr>capacity_fld = 8, size_fld = 1, set_fld = [2]\<rparr>)
       = bs_searcher_ctor 8"
proof -
  have f: "fst (searcher_remove (bs_searcher_ctor 8) 5 \<lparr>capacity_fld = 8, size_fld = 1, set_fld = [2]\<rparr>)
      = Inr False"
    by code_simp
  from remove_false_unchanged [OF f] f show ?thesis
    by simp
qed

lemma remove_found:
  assumes wf: "well_formed bs" and cap: "index_capacity_fld sr = capacity bs"
    and Some: "walk (Some (root_fld sr)) (key_of bs) = Some nd" and True: "v \<in> set (node_values nd)"
  shows "\<exists>root'. searcher_remove sr v bs = (Inr True, sr\<lparr>root_fld := root'\<rparr>)
           \<and> entries (root_fld sr) = entries root' + {#(key_of bs, v)#}
           \<and> leaf_values root' (key_of bs) = swap_pop (node_values nd) (find_pos (node_values nd) v)"
proof -
  let ?k = "key_of bs"
  let ?vs = "node_values nd"
  let ?i = "find_pos ?vs v"
  let ?node' = "treenode (swap_pop ?vs ?i) (left nd) (right nd)"
  let ?path = "trail (Some (root_fld sr)) ?k []"
  let ?root' = "if dead ?node' then prune ?node' ?path else rebuild ?node' ?path"
  have run: "searcher_remove sr v bs = (Inr True, sr\<lparr>root_fld := ?root'\<rparr>)"
    using Some True by (simp add: searcher_remove_valid [OF wf cap] Let_def)
  have i: "?i < length ?vs"
    using True find_pos_le [of ?vs v] find_pos_absent [of ?vs v] by simp
  have d: "dirs ?path = ?k"
    using dirs_trail [OF Some, of "[]"] by (simp add: dirs_def)
  have root: "rebuild nd ?path = root_fld sr"
    using rebuild_trail [OF Some, of "[]"] by simp
  have old: "entries (root_fld sr) = ctx_entries ?path + image_mset (\<lambda>(k, v). (?k @ k, v)) (entries nd)"
    using entries_rebuild [of nd ?path] by (simp add: root d)
  have node': "entries nd = entries ?node' + {#([], v)#}"
  proof -
    have "mset ?vs = mset (swap_pop ?vs ?i) + {#v#}"
      using mset_swap_pop [OF i] find_pos_nth [OF True] True by simp
    then show ?thesis
      by (simp add: entries_unfold [of nd] entries_treenode)
  qed
  have new: "entries ?root' = ctx_entries ?path + image_mset (\<lambda>(k, v). (?k @ k, v)) (entries ?node')"
  proof (cases "dead ?node'")
    case True
    then show ?thesis
      by (simp add: entries_prune dead_entries)
  next
    case False
    then show ?thesis
      using entries_rebuild [of ?node' ?path] by (simp add: d)
  qed
  have ent: "entries (root_fld sr) = entries ?root' + {#(?k, v)#}"
    unfolding old new node' by simp
  have leaf: "leaf_values ?root' ?k = swap_pop ?vs ?i"
  proof (cases "dead ?node'")
    case True
    then have "leaf_values ?root' ?k = []"
      using leaf_values_prune [OF True, of ?path "[]"] by (simp add: d)
    with True show ?thesis
      by (simp add: dead_def)
  next
    case False
    then show ?thesis
      using walk_rebuild [of ?node' ?path] by (simp add: d leaf_values_def)
  qed
  from run ent leaf show ?thesis
    by blast
qed

lemma remove_entries:
  assumes wf: "well_formed bs" and cap: "index_capacity_fld sr = capacity bs"
  shows "entries (root_fld (snd (searcher_remove sr v bs))) = entries (root_fld sr) - {#(key_of bs, v)#}"
    and "index_capacity_fld (snd (searcher_remove sr v bs)) = index_capacity_fld sr"
proof -
  have "entries (root_fld (snd (searcher_remove sr v bs))) = entries (root_fld sr) - {#(key_of bs, v)#}
      \<and> index_capacity_fld (snd (searcher_remove sr v bs)) = index_capacity_fld sr"
  proof (cases "\<exists>nd. walk (Some (root_fld sr)) (key_of bs) = Some nd \<and> v \<in> set (node_values nd)")
    case True
    then obtain nd where "walk (Some (root_fld sr)) (key_of bs) = Some nd" "v \<in> set (node_values nd)"
      by blast
    from remove_found [OF wf cap this] show ?thesis
      by auto
  next
    case False
    then have "(key_of bs, v) \<notin># entries (root_fld sr)"
      by (simp add: entries_member)
    moreover have "searcher_remove sr v bs = (Inr False, sr)"
      using False by (auto simp add: searcher_remove_valid [OF wf cap] split: option.split)
    ultimately show ?thesis
      by simp
  qed
  then show "entries (root_fld (snd (searcher_remove sr v bs))) = entries (root_fld sr) - {#(key_of bs, v)#}"
    and "index_capacity_fld (snd (searcher_remove sr v bs)) = index_capacity_fld sr"
    by simp_all
qed

text \<open>
  C3: for a well-formed set of the index's capacity, \<open>remove\<close> returns false and changes
  nothing when the descent meets a missing child or the leaf's list has no entry equal to
  the value.  Otherwise it returns true; the leaf's list is the old one with its first
  entry equal to the value overwritten by the last entry and the last entry dropped; the
  entries of the whole tree are the old ones without one instance of the pair, so one
  duplicate less is stored.
\<close>

theorem remove_outcome:
  assumes wf: "well_formed bs" and cap: "index_capacity_fld sr = capacity bs"
  shows "(walk (Some (root_fld sr)) (key_of bs) = None \<or> v \<notin> set (stored_at sr bs)
            \<longrightarrow> searcher_remove sr v bs = (Inr False, sr))
       \<and> (v \<in> set (stored_at sr bs) \<longrightarrow>
            (\<exists>sr'. searcher_remove sr v bs = (Inr True, sr')
               \<and> stored_at sr' bs = swap_pop (stored_at sr bs) (find_pos (stored_at sr bs) v)
               \<and> stored_at sr bs ! find_pos (stored_at sr bs) v = v
               \<and> (\<forall>i < find_pos (stored_at sr bs) v. stored_at sr bs ! i \<noteq> v)
               \<and> entries (root_fld sr') = entries (root_fld sr) - {#(key_of bs, v)#}
               \<and> count (entries (root_fld sr')) (key_of bs, v) + 1
                     = count (entries (root_fld sr)) (key_of bs, v)))"
proof (cases "walk (Some (root_fld sr)) (key_of bs)")
  case None
  then show ?thesis
    by (simp add: searcher_remove_valid [OF wf cap] stored_at_def leaf_values_def)
next
  case (Some nd)
  let ?k = "key_of bs"
  let ?vs = "node_values nd"
  have st: "stored_at sr bs = ?vs"
    using Some by (simp add: stored_at_def leaf_values_def)
  show ?thesis
  proof (cases "v \<in> set ?vs")
    case False
    then show ?thesis
      using Some by (simp add: searcher_remove_valid [OF wf cap] st)
  next
    case True
    from remove_found [OF wf cap Some True] obtain root'
      where run: "searcher_remove sr v bs = (Inr True, sr\<lparr>root_fld := root'\<rparr>)"
        and ent: "entries (root_fld sr) = entries root' + {#(?k, v)#}"
        and leaf: "leaf_values root' ?k = swap_pop ?vs (find_pos ?vs v)"
      by blast
    have "stored_at (sr\<lparr>root_fld := root'\<rparr>) bs = swap_pop (stored_at sr bs) (find_pos (stored_at sr bs) v)"
      using leaf by (simp add: stored_at_def st [unfolded stored_at_def])
    moreover have "stored_at sr bs ! find_pos (stored_at sr bs) v = v"
      using find_pos_nth [OF True] by (simp add: st)
    moreover have "\<forall>i < find_pos (stored_at sr bs) v. stored_at sr bs ! i \<noteq> v"
      using find_pos_first [of _ ?vs v] by (simp add: st)
    moreover have "entries (root_fld (sr\<lparr>root_fld := root'\<rparr>)) = entries (root_fld sr) - {#(?k, v)#}"
      using ent by simp
    moreover have "count (entries (root_fld (sr\<lparr>root_fld := root'\<rparr>))) (?k, v) + 1
        = count (entries (root_fld sr)) (?k, v)"
      using ent by simp
    ultimately show ?thesis
      using run True st Some by (intro conjI impI exI [of _ "sr\<lparr>root_fld := root'\<rparr>"]) simp_all
  qed
qed

theorem remove_outcome_witness:
  "well_formed sample_set \<and> index_capacity_fld sample_index = capacity sample_set
   \<and> 7 \<in> set (stored_at sample_index sample_set) \<and> 5 \<notin> set (stored_at sample_index sample_set)
   \<and> searcher_remove sample_index 5 sample_set = (Inr False, sample_index)
   \<and> fst (searcher_remove sample_index 7 sample_set) = Inr True
   \<and> stored_at sample_index sample_set = [7, 7]
   \<and> stored_at (snd (searcher_remove sample_index 7 sample_set)) sample_set = [7]"
proof -
  have wf: "well_formed sample_set"
    by code_simp
  have cap: "index_capacity_fld sample_index = capacity sample_set"
    by code_simp
  have st: "stored_at sample_index sample_set = [7, 7]"
    by code_simp
  have sp: "swap_pop [7, 7] 0 = [7]"
    by code_simp
  from remove_outcome [OF wf cap, of 7] remove_outcome [OF wf cap, of 5] wf cap show ?thesis
    by (auto simp add: st sp)
qed

section \<open>An index of capacity 0\<close>

lemma swap_pop_length: "k < length vs \<Longrightarrow> length (swap_pop vs k) = length vs - 1"
  by (simp add: swap_pop_def)

lemma swap_pop_nth:
  assumes "k < length vs" and "j < length vs - 1"
  shows "swap_pop vs k ! j = (if j = k then last vs else vs ! j)"
proof (cases "k = length vs - 1")
  case True
  then have "swap_pop vs k ! j = butlast vs ! j"
    by (simp add: swap_pop_def)
  also have "\<dots> = vs ! j"
    using assms(2) by (simp add: nth_butlast)
  finally show ?thesis
    using True assms(2) by simp
next
  case False
  then have "swap_pop vs k ! j = butlast (vs[k := last vs]) ! j"
    by (simp add: swap_pop_def)
  also have "\<dots> = (vs[k := last vs]) ! j"
    using assms(2) by (simp add: nth_butlast)
  also have "\<dots> = (if j = k then last vs else vs ! j)"
    using assms by (simp add: nth_list_update)
  finally show ?thesis .
qed

text \<open>
  C10: on an index of capacity 0, with the default-constructed set, \<open>add\<close> appends the
  value to the root's list, \<open>remove\<close> takes the first entry equal to the value out of
  the root's list (or returns false), and \<open>find_subsets\<close> returns the root's list;
  none of them fails.  When the value is in the root's list \<open>vs\<close>, the position \<open>k\<close> that
  \<open>remove\<close> takes is the first one holding the value, and the new list \<open>ws\<close> is one
  shorter than \<open>vs\<close>, holds the last entry of \<open>vs\<close> at position \<open>k\<close> and the entries
  of \<open>vs\<close> at every other position, so that \<open>ws\<close> is \<open>vs\<close> less one instance of the value.
\<close>

theorem capacity_zero_index:
  assumes "index_capacity_fld sr = 0"
  shows "searcher_add sr v binary_set_default
           = (Inr (), sr\<lparr>root_fld := treenode (node_values (root_fld sr) @ [v])
                                      (left (root_fld sr)) (right (root_fld sr))\<rparr>)
       \<and> find_subsets sr binary_set_default = Inr (node_values (root_fld sr))
       \<and> searcher_remove sr v binary_set_default
           = (if v \<in> set (node_values (root_fld sr))
              then (Inr True, sr\<lparr>root_fld := treenode
                      (swap_pop (node_values (root_fld sr)) (find_pos (node_values (root_fld sr)) v))
                      (left (root_fld sr)) (right (root_fld sr))\<rparr>)
              else (Inr False, sr))
       \<and> (v \<in> set (node_values (root_fld sr)) \<longrightarrow>
            (let vs = node_values (root_fld sr);
                 k = find_pos vs v;
                 ws = node_values (root_fld (snd (searcher_remove sr v binary_set_default)))
             in k < length vs \<and> vs ! k = v \<and> (\<forall>i < k. vs ! i \<noteq> v)
                \<and> length ws = length vs - 1
                \<and> (\<forall>j < length ws. ws ! j = (if j = k then last vs else vs ! j))
                \<and> mset ws = mset vs - {#v#}
                \<and> left (root_fld (snd (searcher_remove sr v binary_set_default))) = left (root_fld sr)
                \<and> right (root_fld (snd (searcher_remove sr v binary_set_default))) = right (root_fld sr)
                \<and> index_capacity_fld (snd (searcher_remove sr v binary_set_default)) = 0))"
proof -
  let ?vs = "node_values (root_fld sr)"
  let ?k = "find_pos ?vs v"
  have v: "validate_capacity sr binary_set_default = Inr ()"
    using assms by (simp add: validate_capacity_def capacity_def binary_set_default_def)
  have a: "searcher_add sr v binary_set_default
      = (Inr (), sr\<lparr>root_fld := treenode (node_values (root_fld sr) @ [v])
                                      (left (root_fld sr)) (right (root_fld sr))\<rparr>)"
    using assms v by (simp add: searcher_add_def add_loop.simps)
  have f: "find_subsets sr binary_set_default = Inr (node_values (root_fld sr))"
    using assms v by (simp add: find_subsets_def levels.simps)
  have r: "searcher_remove sr v binary_set_default
           = (if v \<in> set (node_values (root_fld sr))
              then (Inr True, sr\<lparr>root_fld := treenode
                      (swap_pop (node_values (root_fld sr)) (find_pos (node_values (root_fld sr)) v))
                      (left (root_fld sr)) (right (root_fld sr))\<rparr>)
              else (Inr False, sr))"
    using assms v by (simp add: searcher_remove_def descend.simps find_pos_absent Let_def)
  have p: "v \<in> set (node_values (root_fld sr)) \<longrightarrow>
            (let vs = node_values (root_fld sr);
                 k = find_pos vs v;
                 ws = node_values (root_fld (snd (searcher_remove sr v binary_set_default)))
             in k < length vs \<and> vs ! k = v \<and> (\<forall>i < k. vs ! i \<noteq> v)
                \<and> length ws = length vs - 1
                \<and> (\<forall>j < length ws. ws ! j = (if j = k then last vs else vs ! j))
                \<and> mset ws = mset vs - {#v#}
                \<and> left (root_fld (snd (searcher_remove sr v binary_set_default))) = left (root_fld sr)
                \<and> right (root_fld (snd (searcher_remove sr v binary_set_default))) = right (root_fld sr)
                \<and> index_capacity_fld (snd (searcher_remove sr v binary_set_default)) = 0)"
  proof
    assume m: "v \<in> set (node_values (root_fld sr))"
    have k: "?k < length ?vs"
      using m find_pos_le [of ?vs v] find_pos_absent [of ?vs v] by simp
    have n: "?vs ! ?k = v"
      using m by (rule find_pos_nth)
    have fst: "\<forall>i < ?k. ?vs ! i \<noteq> v"
      using find_pos_first [of _ ?vs v] by blast
    have ws: "node_values (root_fld (snd (searcher_remove sr v binary_set_default)))
        = swap_pop ?vs ?k"
      and l: "left (root_fld (snd (searcher_remove sr v binary_set_default))) = left (root_fld sr)"
      and rr: "right (root_fld (snd (searcher_remove sr v binary_set_default))) = right (root_fld sr)"
      and ic: "index_capacity_fld (snd (searcher_remove sr v binary_set_default)) = 0"
      using m assms by (simp_all add: r)
    have len: "length (swap_pop ?vs ?k) = length ?vs - 1"
      using k by (rule swap_pop_length)
    have nth: "\<forall>j < length (swap_pop ?vs ?k).
        swap_pop ?vs ?k ! j = (if j = ?k then last ?vs else ?vs ! j)"
      using swap_pop_nth [OF k] len by simp
    have ms: "mset (swap_pop ?vs ?k) = mset ?vs - {#v#}"
      using mset_swap_pop [OF k] n by simp
    show "let vs = node_values (root_fld sr);
                 k = find_pos vs v;
                 ws = node_values (root_fld (snd (searcher_remove sr v binary_set_default)))
             in k < length vs \<and> vs ! k = v \<and> (\<forall>i < k. vs ! i \<noteq> v)
                \<and> length ws = length vs - 1
                \<and> (\<forall>j < length ws. ws ! j = (if j = k then last vs else vs ! j))
                \<and> mset ws = mset vs - {#v#}
                \<and> left (root_fld (snd (searcher_remove sr v binary_set_default))) = left (root_fld sr)
                \<and> right (root_fld (snd (searcher_remove sr v binary_set_default))) = right (root_fld sr)
                \<and> index_capacity_fld (snd (searcher_remove sr v binary_set_default)) = 0"
      unfolding Let_def ws using k n fst len nth ms l rr ic by (intro conjI)
  qed
  from a f r p show ?thesis
    by (intro conjI)
qed

theorem capacity_zero_index_witness:
  "index_capacity_fld (bs_searcher_ctor 0) = 0
   \<and> searcher_add (bs_searcher_ctor 0) 4 binary_set_default
        = (Inr (), \<lparr>root_fld = treenode [4] None None, index_capacity_fld = 0\<rparr>)
   \<and> index_capacity_fld \<lparr>root_fld = treenode [4, 6, 4] None None, index_capacity_fld = 0\<rparr> = 0
   \<and> find_subsets \<lparr>root_fld = treenode [4, 6, 4] None None, index_capacity_fld = 0\<rparr> binary_set_default
        = Inr [4, 6, 4]
   \<and> 4 \<in> set (node_values (root_fld \<lparr>root_fld = treenode [4, 6, 4] None None, index_capacity_fld = 0\<rparr>))
   \<and> searcher_remove \<lparr>root_fld = treenode [4, 6, 4] None None, index_capacity_fld = 0\<rparr> 4 binary_set_default
        = (Inr True, \<lparr>root_fld = treenode [4, 6] None None, index_capacity_fld = 0\<rparr>)
   \<and> find_pos [4, 6, 4] 4 = 0
   \<and> mset [4, 6] = mset [4, 6, 4] - {#4 :: 32 word#}
   \<and> searcher_remove \<lparr>root_fld = treenode [4, 6, 4] None None, index_capacity_fld = 0\<rparr> 6 binary_set_default
        = (Inr True, \<lparr>root_fld = treenode [4, 4] None None, index_capacity_fld = 0\<rparr>)
   \<and> searcher_remove \<lparr>root_fld = treenode [4, 6, 4] None None, index_capacity_fld = 0\<rparr> 5 binary_set_default
        = (Inr False, \<lparr>root_fld = treenode [4, 6, 4] None None, index_capacity_fld = 0\<rparr>)"
proof -
  have c: "index_capacity_fld (bs_searcher_ctor 0) = 0"
    and c': "index_capacity_fld \<lparr>root_fld = treenode [4, 6, 4] None None, index_capacity_fld = 0\<rparr> = 0"
    by (simp_all add: bs_searcher_ctor_def)
  have sp: "swap_pop [4, 6, 4] 0 = [4, 6]" "swap_pop [4, 6, 4] (Suc 0) = [4, 4]"
    by code_simp+
  from capacity_zero_index [OF c, of 4] capacity_zero_index [OF c', of 4]
    capacity_zero_index [OF c', of 6] capacity_zero_index [OF c', of 5] c
  show ?thesis
    by (simp add: bs_searcher_ctor_def new_node_def sp Let_def)
qed

section \<open>Pruning\<close>

lemma walk_not_dead:
  "pruned t \<Longrightarrow> k \<noteq> [] \<Longrightarrow> walk (Some t) k = Some nd \<Longrightarrow> \<not> dead nd"
proof (induction k arbitrary: t)
  case Nil
  then show ?case by simp
next
  case (Cons b k)
  then obtain c where c: "get_child t b = Some c"
    by (cases "get_child t b") simp_all
  from pruned_child [OF Cons.prems(1) c] have pc: "\<not> dead c" "pruned c"
    by simp_all
  show ?case
  proof (cases "k = []")
    case True
    with Cons.prems c pc show ?thesis by simp
  next
    case False
    with Cons.prems c Cons.IH [OF pc(2) False] show ?thesis by simp
  qed
qed

lemma apply_op_pruned:
  assumes wf: "well_formed (op_set x)" and p: "pruned (root_fld sr)"
  shows "pruned (root_fld (apply_op sr x))"
proof (cases x)
  case (Add v bs)
  show ?thesis
  proof (cases "index_capacity_fld sr = capacity bs")
    case True
    then show ?thesis
      using wf p Add by (simp add: searcher_add_valid pruned_ins)
  next
    case False
    then show ?thesis
      using p Add by (simp add: searcher_add_def validate_capacity_mismatch)
  qed
next
  case (Remove v bs)
  show ?thesis
  proof (cases "index_capacity_fld sr = capacity bs")
    case False
    then show ?thesis
      using p Remove by (simp add: searcher_remove_def validate_capacity_mismatch)
  next
    case True
    from wf Remove have wf': "well_formed bs" by simp
    show ?thesis
    proof (cases "walk (Some (root_fld sr)) (key_of bs)")
      case None
      then show ?thesis
        using p Remove by (simp add: searcher_remove_valid [OF wf' True])
    next
      case (Some nd)
      let ?node' = "treenode (swap_pop (node_values nd) (find_pos (node_values nd) v)) (left nd) (right nd)"
      let ?path = "trail (Some (root_fld sr)) (key_of bs) []"
      have "pruned_around []"
        by (simp add: pruned_around_def)
      from pruned_trail [OF Some p this] have around: "pruned_around ?path" and "pruned nd"
        by simp_all
      then have pn: "pruned ?node'"
        by (simp only: pruned_values)
      have "pruned (prune ?node' ?path)"
        using around pn by (rule pruned_prune)
      moreover have "\<not> dead ?node' \<Longrightarrow> pruned (rebuild ?node' ?path)"
        using around pn by (intro pruned_rebuild) simp_all
      ultimately show ?thesis
        using p Remove Some by (simp add: searcher_remove_valid [OF wf' True] Let_def)
    qed
  qed
qed

lemma run_pruned:
  "list_all (\<lambda>x. well_formed (op_set x)) ops \<Longrightarrow> pruned (root_fld sr) \<Longrightarrow> pruned (root_fld (run sr ops))"
  unfolding run_def by (induction ops arbitrary: sr) (simp_all add: apply_op_pruned)

text \<open>
  C2: after every sequence of \<open>add\<close> and \<open>remove\<close> calls with well-formed sets on a new
  index, no node other than the root is without values and without children: the tree is
  pruned, and the node at the end of any non-empty path from the root is not dead.
\<close>

theorem no_dead_node:
  assumes "list_all (\<lambda>x. well_formed (op_set x)) ops"
  shows "pruned (root_fld (run (bs_searcher_ctor c) ops))
       \<and> (\<forall>k nd. k \<noteq> [] \<and> walk (Some (root_fld (run (bs_searcher_ctor c) ops))) k = Some nd
              \<longrightarrow> \<not> dead nd)"
proof -
  have "pruned (root_fld (bs_searcher_ctor c))"
    by (simp add: bs_searcher_ctor_def new_node_def)
  with assms have "pruned (root_fld (run (bs_searcher_ctor c) ops))"
    by (rule run_pruned)
  then show ?thesis
    using walk_not_dead by blast
qed

theorem no_dead_node_witness:
  "list_all (\<lambda>x. well_formed (op_set x))
      [Add 7 sample_set, Add 9 sample_query, Remove 7 sample_set]
   \<and> run (bs_searcher_ctor 8) [Add 7 sample_set, Add 9 sample_query, Remove 7 sample_set]
       = run (bs_searcher_ctor 8) [Add 9 sample_query]
   \<and> pruned (root_fld (run (bs_searcher_ctor 8) [Add 7 sample_set, Add 9 sample_query, Remove 7 sample_set]))
   \<and> walk (Some (root_fld (run (bs_searcher_ctor 8)
        [Add 7 sample_set, Add 9 sample_query, Remove 7 sample_set]))) (key_of sample_set) = None"
proof -
  have wf: "list_all (\<lambda>x. well_formed (op_set x))
      [Add 7 sample_set, Add 9 sample_query, Remove 7 sample_set]"
    by code_simp
  have same: "run (bs_searcher_ctor 8) [Add 7 sample_set, Add 9 sample_query, Remove 7 sample_set]
       = run (bs_searcher_ctor 8) [Add 9 sample_query]"
    by code_simp
  have gone: "walk (Some (root_fld (run (bs_searcher_ctor 8)
        [Add 7 sample_set, Add 9 sample_query, Remove 7 sample_set]))) (key_of sample_set) = None"
    by code_simp
  from no_dead_node [OF wf, of 8] wf same gone show ?thesis
    by simp
qed

section \<open>The subset query\<close>

lemma key_nth:
  assumes wf: "well_formed s" and i: "i < unat (capacity s)"
  shows "key_of s ! i = bit_at (set_fld s) i"
proof -
  from i have i': "i < unat (capacity_fld s)"
    by (simp add: capacity_def)
  have "contains s (of_nat i) = Inr (bit_at (set_fld s) i)"
    using contains_well_formed [OF wf of_nat_below_capacity(1) [OF i']] of_nat_below_capacity(2) [OF i']
    by simp
  then show ?thesis
    using i by (simp add: key_of_def)
qed

lemma key_of_inject:
  assumes s: "well_formed s" and s': "well_formed s'" and cap: "capacity s = capacity s'"
    and key: "key_of s = key_of s'"
  shows "s = s'"
proof -
  have cs: "consistent s" and cs': "consistent s'"
    using s s' by (simp_all add: well_formed_def)
  have cap': "capacity_fld s = capacity_fld s'"
    using cap by (simp add: capacity_def)
  have bits: "bit_at (set_fld s) p = bit_at (set_fld s') p" for p
  proof (cases "p < unat (capacity s)")
    case True
    then show ?thesis
      using key_nth [OF s True] key_nth [OF s', of p] cap key by simp
  next
    case False
    then show ?thesis
      using consistent_pad [OF cs, of p] consistent_pad [OF cs', of p] cap'
      by (simp add: capacity_def)
  qed
  have "length (set_fld s) = length (set_fld s')"
    using s s' cap' by (simp add: well_formed_length)
  then have v: "set_fld s = set_fld s'"
    using bits by (intro bytes_eqI) simp_all
  have "unat (size_fld s) = unat (size_fld s')"
    using consistent_size [OF cs] consistent_size [OF cs'] v by simp
  then have "size_fld s = size_fld s'"
    by (simp add: word_unat_eq_iff)
  with v cap' show ?thesis
    by (intro binary_set.equality) simp_all
qed

lemma subset_of_keys:
  assumes "capacity s = capacity q"
  shows "subset_of s q = list_all2 (\<lambda>a b. a \<longrightarrow> b) (key_of s) (key_of q)"
  using assms
  by (simp add: subset_of_def key_of_def list_all2_map1 list_all2_map2 list_all2_same list_all_iff)

lemma tracks_add:
  assumes t: "tracks c sr st" and wf: "well_formed bs" and cap: "capacity bs = c"
  shows "tracks c (snd (searcher_add sr v bs)) (st + {#(v, bs)#})"
proof -
  have "index_capacity_fld sr = capacity bs"
    using t cap by (simp add: tracks_def)
  then show ?thesis
    using t wf cap by (simp add: searcher_add_valid [OF wf] tracks_def entries_ins)
qed

lemma tracks_remove:
  assumes t: "tracks c sr st" and wf: "well_formed bs" and cap: "capacity bs = c"
  shows "tracks c (snd (searcher_remove sr v bs)) (st - {#(v, bs)#})"
proof -
  let ?f = "\<lambda>(v, s). (key_of s, v)"
  have ic: "index_capacity_fld sr = capacity bs"
    using t cap by (simp add: tracks_def)
  have E: "entries (root_fld sr) = image_mset ?f st"
    using t by (simp add: tracks_def)
  have all: "\<And>w s. (w, s) \<in># st \<Longrightarrow> well_formed s \<and> capacity s = c"
    using t by (auto simp add: tracks_def)
  have "image_mset ?f st - {#(key_of bs, v)#} = image_mset ?f (st - {#(v, bs)#})"
  proof (cases "(v, bs) \<in># st")
    case True
    then have "image_mset ?f (st - {#(v, bs)#}) = image_mset ?f st - image_mset ?f {#(v, bs)#}"
      by (intro image_mset_Diff) simp
    then show ?thesis by simp
  next
    case False
    have "(key_of bs, v) \<notin># image_mset ?f st"
    proof
      assume "(key_of bs, v) \<in># image_mset ?f st"
      then obtain w s where ws: "(w, s) \<in># st" "key_of s = key_of bs" "w = v"
        by auto
      then have "well_formed s" "capacity s = capacity bs"
        using all [of w s] cap by simp_all
      then have "s = bs"
        using wf ws(2) by (intro key_of_inject) simp_all
      with ws False show False by simp
    qed
    with False show ?thesis
      by (simp add: diff_single_trivial)
  qed
  moreover have "\<forall>(w, s) \<in># st - {#(v, bs)#}. well_formed s \<and> capacity s = c"
    using all by (auto dest: in_diffD)
  ultimately show ?thesis
    using remove_entries [OF wf ic, of v] t E by (simp add: tracks_def)
qed

lemma tracks_apply_op:
  assumes t: "tracks c sr st" and wf: "well_formed (op_set x)"
  shows "tracks c (apply_op sr x) (spec_apply c st x)"
proof (cases x)
  case (Add v bs)
  show ?thesis
  proof (cases "capacity bs = c")
    case True
    with tracks_add [OF t _ True, of v] wf Add show ?thesis by simp
  next
    case False
    then have "index_capacity_fld sr \<noteq> capacity bs"
      using t by (auto simp add: tracks_def)
    then show ?thesis
      using t Add False by (simp add: searcher_add_def validate_capacity_mismatch)
  qed
next
  case (Remove v bs)
  show ?thesis
  proof (cases "capacity bs = c")
    case True
    with tracks_remove [OF t _ True, of v] wf Remove show ?thesis by simp
  next
    case False
    then have "index_capacity_fld sr \<noteq> capacity bs"
      using t by (auto simp add: tracks_def)
    then show ?thesis
      using t Remove False by (simp add: searcher_remove_def validate_capacity_mismatch)
  qed
qed

lemma tracks_run:
  "tracks c sr st \<Longrightarrow> list_all (\<lambda>x. well_formed (op_set x)) ops
     \<Longrightarrow> tracks c (foldl apply_op sr ops) (foldl (spec_apply c) st ops)"
  by (induction ops arbitrary: sr st) (simp_all add: tracks_apply_op)

lemma tracks_find:
  assumes t: "tracks c sr st" and wf: "well_formed q" and cap: "capacity q = c"
  shows "\<exists>vs. find_subsets sr q = Inr vs
           \<and> mset vs = image_mset fst (filter_mset (\<lambda>(v, s). subset_of s q) st)"
proof -
  let ?vs = "concat (map node_values (frontier (key_of q) [root_fld sr]))"
  have ic: "index_capacity_fld sr = capacity q"
    using t cap by (simp add: tracks_def)
  have run: "find_subsets sr q = Inr ?vs"
    using wf ic by (rule find_subsets_valid)
  have "mset ?vs = matches (key_of q) (root_fld sr)"
    by (simp add: frontier_matches)
  also have "\<dots> = image_mset snd (filter_mset (\<lambda>(k, v). list_all2 (\<lambda>a b. a \<longrightarrow> b) k (key_of q))
      (image_mset (\<lambda>(v, s). (key_of s, v)) st))"
    using t by (simp add: matches_def tracks_def)
  also have "\<dots> = image_mset fst
      (filter_mset (\<lambda>(v, s). list_all2 (\<lambda>a b. a \<longrightarrow> b) (key_of s) (key_of q)) st)"
    by (simp add: filter_mset_image_mset image_mset.compositionality o_def case_prod_unfold)
  also have "filter_mset (\<lambda>(v, s). list_all2 (\<lambda>a b. a \<longrightarrow> b) (key_of s) (key_of q)) st
      = filter_mset (\<lambda>(v, s). subset_of s q) st"
  proof (rule filter_mset_cong)
    fix x
    assume "x \<in># st"
    then have "capacity (snd x) = capacity q"
      using t cap by (auto simp add: tracks_def)
    then show "(case x of (v, s) \<Rightarrow> list_all2 (\<lambda>a b. a \<longrightarrow> b) (key_of s) (key_of q))
        = (case x of (v, s) \<Rightarrow> subset_of s q)"
      by (simp add: case_prod_unfold subset_of_keys)
  qed simp
  finally show ?thesis
    using run by blast
qed

text \<open>
  C1: after any sequence of \<open>add\<close> and \<open>remove\<close> calls with well-formed sets on a new index
  of capacity \<open>c\<close>, \<open>find_subsets\<close> with a well-formed query of capacity \<open>c\<close> returns, and
  the values it returns are, as a multiset, the values of the stored pairs whose set is a
  subset of the query.
\<close>

theorem find_subsets_correct:
  assumes "list_all (\<lambda>x. well_formed (op_set x)) ops" and "well_formed q" and "capacity q = c"
  shows "\<exists>vs. find_subsets (run (bs_searcher_ctor c) ops) q = Inr vs
           \<and> mset vs = image_mset fst (filter_mset (\<lambda>(v, s). subset_of s q) (spec_stored c ops))"
proof -
  have "tracks c (bs_searcher_ctor c) {#}"
    by (simp add: tracks_def bs_searcher_ctor_def)
  then have "tracks c (run (bs_searcher_ctor c) ops) (spec_stored c ops)"
    unfolding run_def spec_stored_def using assms(1) by (rule tracks_run)
  then show ?thesis
    using assms(2,3) by (rule tracks_find)
qed

theorem find_subsets_correct_witness:
  "list_all (\<lambda>x. well_formed (op_set x))
      [Add 101 sample_set_13, Add 102 sample_set, Add 103 sample_set_135, Add 102 sample_set,
       Remove 102 sample_set]
   \<and> well_formed sample_query \<and> capacity sample_query = 8
   \<and> find_subsets (run (bs_searcher_ctor 8)
        [Add 101 sample_set_13, Add 102 sample_set, Add 103 sample_set_135, Add 102 sample_set,
         Remove 102 sample_set]) sample_query = Inr [102, 101]
   \<and> image_mset fst (filter_mset (\<lambda>(v, s). subset_of s sample_query) (spec_stored 8
        [Add 101 sample_set_13, Add 102 sample_set, Add 103 sample_set_135, Add 102 sample_set,
         Remove 102 sample_set])) = mset [102, 101]"
proof -
  have ops: "list_all (\<lambda>x. well_formed (op_set x))
      [Add 101 sample_set_13, Add 102 sample_set, Add 103 sample_set_135, Add 102 sample_set,
       Remove 102 sample_set]"
    by code_simp
  have q: "well_formed sample_query"
    by code_simp
  have c: "capacity sample_query = 8"
    by code_simp
  have f: "find_subsets (run (bs_searcher_ctor 8)
        [Add 101 sample_set_13, Add 102 sample_set, Add 103 sample_set_135, Add 102 sample_set,
         Remove 102 sample_set]) sample_query = Inr [102, 101]"
    by code_simp
  from find_subsets_correct [OF ops q c] obtain vs
    where "find_subsets (run (bs_searcher_ctor 8)
        [Add 101 sample_set_13, Add 102 sample_set, Add 103 sample_set_135, Add 102 sample_set,
         Remove 102 sample_set]) sample_query = Inr vs"
      and m: "mset vs = image_mset fst (filter_mset (\<lambda>(v, s). subset_of s sample_query) (spec_stored 8
        [Add 101 sample_set_13, Add 102 sample_set, Add 103 sample_set_135, Add 102 sample_set,
         Remove 102 sample_set]))"
    by blast
  with f have "vs = [102, 101]"
    by simp
  with m [symmetric] ops q c f show ?thesis
    by (simp only: simp_thms)
qed

section \<open>Failing calls\<close>

lemma subscript_error:
  assumes "i < unat (capacity bs)" and "subscript bs (of_nat i) = Inl x"
  shows "x = out_of_bounds"
proof -
  from assms(1) have i: "i < unat (capacity_fld bs)"
    by (simp add: capacity_def)
  have "validate_element bs (of_nat i) = Inr ()"
    using of_nat_below_capacity(1) [OF i] by (simp add: validate_element_ok less_capacity_nonzero)
  then show ?thesis
    using assms(2) by (auto simp add: subscript_def contains_def Let_def split: if_splits)
qed

lemma add_loop_error:
  assumes "n = unat (capacity bs)"
  shows "fst (add_loop bs v n i t) = Inl x \<Longrightarrow> x = out_of_bounds"
proof (induction "n - i" arbitrary: i t)
  case 0
  then have "\<not> i < n" by simp
  with "0.prems" show ?case
    by (subst (asm) add_loop.simps) simp
next
  case (Suc m)
  then have lt: "i < n" by simp
  show ?case
  proof (cases "subscript bs (of_nat i)")
    case (Inl y)
    with lt Suc.prems have "x = y"
      by (subst (asm) add_loop.simps) simp
    with Inl lt assms show ?thesis
      using subscript_error [of i bs y] by simp
  next
    case (Inr b)
    let ?child = "case get_child t b of None \<Rightarrow> new_node | Some c \<Rightarrow> c"
    from Inr lt Suc.prems have "fst (add_loop bs v n (Suc i) ?child) = Inl x"
      by (subst (asm) add_loop.simps) (simp add: case_prod_unfold Let_def)
    moreover have "m = n - Suc i"
      using Suc.hyps(2) by simp
    ultimately show ?thesis
      by (rule Suc.hyps(1) [rotated])
  qed
qed

lemma searcher_add_exception:
  assumes "fst (searcher_add sr v bs) = Inl x" and "x \<noteq> out_of_bounds"
  shows "snd (searcher_add sr v bs) = sr"
proof (cases "index_capacity_fld sr = capacity bs")
  case False
  then show ?thesis
    by (simp add: searcher_add_def validate_capacity_mismatch)
next
  case True
  then have "fst (add_loop bs v (unat (capacity bs)) 0 (root_fld sr)) = Inl x"
    using assms(1) by (simp add: searcher_add_def validate_capacity_ok case_prod_unfold Let_def)
  then have "x = out_of_bounds"
    by (rule add_loop_error [OF refl])
  with assms(2) show ?thesis by simp
qed

lemma searcher_remove_exception:
  "fst (searcher_remove sr v bs) = Inl x \<Longrightarrow> snd (searcher_remove sr v bs) = sr"
  by (auto simp add: searcher_remove_def Let_def split: sum.splits option.splits prod.splits if_splits)

lemma element_op_exception:
  "fst (add s e) = Inl x \<Longrightarrow> snd (add s e) = s"
  "fst (remove s e) = Inl x \<Longrightarrow> snd (remove s e) = s"
  by (auto simp add: add_def remove_def Let_def split: sum.splits bool.splits)

lemma assign_op_exception:
  "fst (op_and_assign s other) = Inl x \<Longrightarrow> x \<noteq> out_of_bounds \<Longrightarrow> snd (op_and_assign s other) = s"
  "fst (op_or_assign s other) = Inl x \<Longrightarrow> x \<noteq> out_of_bounds \<Longrightarrow> snd (op_or_assign s other) = s"
  "fst (op_minus_assign s other) = Inl x \<Longrightarrow> x \<noteq> out_of_bounds \<Longrightarrow> snd (op_minus_assign s other) = s"
  by (auto simp add: op_and_assign_def op_or_assign_def op_minus_assign_def bin_op_assign_outcomes
      split: if_splits)

lemma fill_never_throws: "fst (fill s) = Inl x \<Longrightarrow> x = out_of_bounds"
  by (auto simp add: fill_def mask_last_def Let_def split: if_splits sum.splits)

lemma mismatch_failures:
  assumes "capacity a \<noteq> capacity b"
  shows "op_and a b = Inl (invalid_argument msg_same_capacity)"
    and "op_or a b = Inl (invalid_argument msg_same_capacity)"
    and "op_minus a b = Inl (invalid_argument msg_same_capacity)"
    and "op_eq a b = Inl (invalid_argument msg_same_capacity)"
    and "op_neq a b = Inl (invalid_argument msg_same_capacity)"
    and "intersects a b = Inl (invalid_argument msg_same_capacity)"
    and "contains_set a b = Inl (invalid_argument msg_same_capacity)"
    and "op_and_assign a b = (Inl (invalid_argument msg_same_capacity), a)"
    and "op_or_assign a b = (Inl (invalid_argument msg_same_capacity), a)"
    and "op_minus_assign a b = (Inl (invalid_argument msg_same_capacity), a)"
  using assms
  by (simp_all add: capacity_def op_and_def op_or_def op_minus_def op_eq_def op_neq_def
      intersects_def contains_set_def op_and_assign_def op_or_assign_def op_minus_assign_def
      bin_op_outcomes bin_op_assign_outcomes validate_same_capacity_def)

lemma index_mismatch_failures:
  assumes "index_capacity_fld sr \<noteq> capacity bs"
  shows "searcher_add sr v bs = (Inl (invalid_argument msg_unexpected_capacity), sr)"
    and "searcher_remove sr v bs = (Inl (invalid_argument msg_unexpected_capacity), sr)"
    and "find_subsets sr bs = Inl (invalid_argument msg_unexpected_capacity)"
  using assms
  by (simp_all add: searcher_add_def searcher_remove_def find_subsets_def validate_capacity_mismatch)

lemma domain_failures:
  assumes "capacity d = 0"
  shows "add d e = (Inl (domain_error msg_domain), d)"
    and "remove d e = (Inl (domain_error msg_domain), d)"
    and "contains d e = Inl (domain_error msg_domain)"
    and "sparse d = Inl (domain_error msg_domain)"
  using assms
  by (simp_all add: capacity_def add_def remove_def contains_def sparse_def validate_element_def)

lemma range_failures:
  assumes "capacity s \<noteq> 0" and "capacity s \<le> x"
  shows "add s x = (Inl (out_of_range msg_range), s)"
    and "remove s x = (Inl (out_of_range msg_range), s)"
    and "contains s x = Inl (out_of_range msg_range)"
  using assms
  by (simp_all add: capacity_def add_def remove_def contains_def validate_element_def)

lemma failures_distinct:
  "distinct [invalid_argument msg_capacity_zero, invalid_argument msg_same_capacity,
     invalid_argument msg_unexpected_capacity, domain_error msg_domain, out_of_range msg_range]"
  by (simp add: msg_capacity_zero_def msg_same_capacity_def msg_unexpected_capacity_def)

text \<open>
  C7, as stated, fails: the four kinds are not four distinguishable failures.  The
  constructor with capacity 0 (InvalidCapacity), a binary operation on sets of different
  capacities and an index operation with a set of another capacity (CapacityMismatch) all
  throw the one class \<open>std::invalid_argument\<close>.
\<close>

theorem failure_classes_counterexample:
  "binary_set_ctor 0 False = Inl (invalid_argument msg_capacity_zero)
   \<and> capacity sample_set \<noteq> capacity binary_set_default
   \<and> op_and sample_set binary_set_default = Inl (invalid_argument msg_same_capacity)
   \<and> index_capacity_fld (bs_searcher_ctor 8) \<noteq> capacity binary_set_default
   \<and> find_subsets (bs_searcher_ctor 8) binary_set_default
        = Inl (invalid_argument msg_unexpected_capacity)
   \<and> exception_class_of (invalid_argument msg_capacity_zero)
        = exception_class_of (invalid_argument msg_same_capacity)
   \<and> exception_class_of (invalid_argument msg_capacity_zero)
        = exception_class_of (invalid_argument msg_unexpected_capacity)"
  by code_simp

text \<open>
  C7, amended: the failures are thrown through three exception classes:
  \<open>invalid_argument\<close> for the constructor with capacity 0 and for every capacity
  mismatch (the three cases differ in the message only), \<open>domain_error\<close> for an element
  operation on a set of capacity 0, \<open>out_of_range\<close> for an element at or beyond a nonzero
  capacity; the three classes are pairwise different.  A call that throws one of these
  exceptions leaves its operand as it was, and \<open>fill\<close> throws none of them.  (An access
  outside the backing store is not an exception of the program; the in-place operators
  and the index's \<open>add\<close> may have written before it, \<open>add\<close> and \<open>remove\<close> of a set and the
  index's \<open>remove\<close> have not.)
\<close>

theorem failures_reported:
  "(c = 0 \<longrightarrow> binary_set_ctor c f = Inl (invalid_argument msg_capacity_zero))
   \<and> (capacity a \<noteq> capacity b \<longrightarrow>
        op_and a b = Inl (invalid_argument msg_same_capacity)
        \<and> op_or a b = Inl (invalid_argument msg_same_capacity)
        \<and> op_minus a b = Inl (invalid_argument msg_same_capacity)
        \<and> op_eq a b = Inl (invalid_argument msg_same_capacity)
        \<and> op_neq a b = Inl (invalid_argument msg_same_capacity)
        \<and> intersects a b = Inl (invalid_argument msg_same_capacity)
        \<and> contains_set a b = Inl (invalid_argument msg_same_capacity)
        \<and> op_and_assign a b = (Inl (invalid_argument msg_same_capacity), a)
        \<and> op_or_assign a b = (Inl (invalid_argument msg_same_capacity), a)
        \<and> op_minus_assign a b = (Inl (invalid_argument msg_same_capacity), a))
   \<and> (index_capacity_fld sr \<noteq> capacity bs \<longrightarrow>
        searcher_add sr v bs = (Inl (invalid_argument msg_unexpected_capacity), sr)
        \<and> searcher_remove sr v bs = (Inl (invalid_argument msg_unexpected_capacity), sr)
        \<and> find_subsets sr bs = Inl (invalid_argument msg_unexpected_capacity))
   \<and> (capacity d = 0 \<longrightarrow>
        add d e = (Inl (domain_error msg_domain), d)
        \<and> remove d e = (Inl (domain_error msg_domain), d)
        \<and> contains d e = Inl (domain_error msg_domain)
        \<and> sparse d = Inl (domain_error msg_domain))
   \<and> (capacity s \<noteq> 0 \<and> capacity s \<le> x \<longrightarrow>
        add s x = (Inl (out_of_range msg_range), s)
        \<and> remove s x = (Inl (out_of_range msg_range), s)
        \<and> contains s x = Inl (out_of_range msg_range))
   \<and> exception_class_of (invalid_argument msg_capacity_zero) = Some std_invalid_argument
   \<and> exception_class_of (invalid_argument msg_same_capacity) = Some std_invalid_argument
   \<and> exception_class_of (invalid_argument msg_unexpected_capacity) = Some std_invalid_argument
   \<and> exception_class_of (domain_error msg_domain) = Some std_domain_error
   \<and> exception_class_of (out_of_range msg_range) = Some std_out_of_range
   \<and> distinct [std_invalid_argument, std_domain_error, std_out_of_range]
   \<and> distinct [msg_capacity_zero, msg_same_capacity, msg_unexpected_capacity]
   \<and> (fst (add s x) = Inl y \<longrightarrow> snd (add s x) = s)
   \<and> (fst (remove s x) = Inl y \<longrightarrow> snd (remove s x) = s)
   \<and> (fst (op_and_assign a b) = Inl y \<and> y \<noteq> out_of_bounds \<longrightarrow> snd (op_and_assign a b) = a)
   \<and> (fst (op_or_assign a b) = Inl y \<and> y \<noteq> out_of_bounds \<longrightarrow> snd (op_or_assign a b) = a)
   \<and> (fst (op_minus_assign a b) = Inl y \<and> y \<noteq> out_of_bounds \<longrightarrow> snd (op_minus_assign a b) = a)
   \<and> (fst (fill s) = Inl y \<longrightarrow> y = out_of_bounds)
   \<and> (fst (searcher_add sr v bs) = Inl y \<and> y \<noteq> out_of_bounds \<longrightarrow> snd (searcher_add sr v bs) = sr)
   \<and> (fst (searcher_remove sr v bs) = Inl y \<longrightarrow> snd (searcher_remove sr v bs) = sr)"
proof -
  have c1: "c = 0 \<longrightarrow> binary_set_ctor c f = Inl (invalid_argument msg_capacity_zero)"
    by (simp add: binary_set_ctor_def)
  have c2: "capacity a \<noteq> capacity b \<longrightarrow>
        op_and a b = Inl (invalid_argument msg_same_capacity)
        \<and> op_or a b = Inl (invalid_argument msg_same_capacity)
        \<and> op_minus a b = Inl (invalid_argument msg_same_capacity)
        \<and> op_eq a b = Inl (invalid_argument msg_same_capacity)
        \<and> op_neq a b = Inl (invalid_argument msg_same_capacity)
        \<and> intersects a b = Inl (invalid_argument msg_same_capacity)
        \<and> contains_set a b = Inl (invalid_argument msg_same_capacity)
        \<and> op_and_assign a b = (Inl (invalid_argument msg_same_capacity), a)
        \<and> op_or_assign a b = (Inl (invalid_argument msg_same_capacity), a)
        \<and> op_minus_assign a b = (Inl (invalid_argument msg_same_capacity), a)"
    by (simp add: mismatch_failures)
  have c3: "index_capacity_fld sr \<noteq> capacity bs \<longrightarrow>
        searcher_add sr v bs = (Inl (invalid_argument msg_unexpected_capacity), sr)
        \<and> searcher_remove sr v bs = (Inl (invalid_argument msg_unexpected_capacity), sr)
        \<and> find_subsets sr bs = Inl (invalid_argument msg_unexpected_capacity)"
    by (simp add: index_mismatch_failures)
  have c4: "capacity d = 0 \<longrightarrow>
        add d e = (Inl (domain_error msg_domain), d)
        \<and> remove d e = (Inl (domain_error msg_domain), d)
        \<and> contains d e = Inl (domain_error msg_domain)
        \<and> sparse d = Inl (domain_error msg_domain)"
    by (simp add: domain_failures)
  have c5: "capacity s \<noteq> 0 \<and> capacity s \<le> x \<longrightarrow>
        add s x = (Inl (out_of_range msg_range), s)
        \<and> remove s x = (Inl (out_of_range msg_range), s)
        \<and> contains s x = Inl (out_of_range msg_range)"
    by (simp add: range_failures)
  have k1: "exception_class_of (invalid_argument msg_capacity_zero) = Some std_invalid_argument"
    and k2: "exception_class_of (invalid_argument msg_same_capacity) = Some std_invalid_argument"
    and k3: "exception_class_of (invalid_argument msg_unexpected_capacity) = Some std_invalid_argument"
    and k4: "exception_class_of (domain_error msg_domain) = Some std_domain_error"
    and k5: "exception_class_of (out_of_range msg_range) = Some std_out_of_range"
    and k6: "distinct [std_invalid_argument, std_domain_error, std_out_of_range]"
    by simp_all
  have k7: "distinct [msg_capacity_zero, msg_same_capacity, msg_unexpected_capacity]"
    by (simp add: msg_capacity_zero_def msg_same_capacity_def msg_unexpected_capacity_def)
  have c7: "fst (add s x) = Inl y \<longrightarrow> snd (add s x) = s"
    and c8: "fst (remove s x) = Inl y \<longrightarrow> snd (remove s x) = s"
    using element_op_exception by blast+
  have c9: "fst (op_and_assign a b) = Inl y \<and> y \<noteq> out_of_bounds \<longrightarrow> snd (op_and_assign a b) = a"
    and c10: "fst (op_or_assign a b) = Inl y \<and> y \<noteq> out_of_bounds \<longrightarrow> snd (op_or_assign a b) = a"
    and c11: "fst (op_minus_assign a b) = Inl y \<and> y \<noteq> out_of_bounds \<longrightarrow> snd (op_minus_assign a b) = a"
    using assign_op_exception by blast+
  have c12: "fst (fill s) = Inl y \<longrightarrow> y = out_of_bounds"
    using fill_never_throws by blast
  have c13: "fst (searcher_add sr v bs) = Inl y \<and> y \<noteq> out_of_bounds \<longrightarrow> snd (searcher_add sr v bs) = sr"
    using searcher_add_exception by blast
  have c14: "fst (searcher_remove sr v bs) = Inl y \<longrightarrow> snd (searcher_remove sr v bs) = sr"
    using searcher_remove_exception by blast
  show ?thesis
    by (intro conjI) (rule c1 c2 c3 c4 c5 k1 k2 k3 k4 k5 k6 k7 c7 c8 c9 c10 c11 c12 c13 c14)+
qed

theorem failures_reported_witness:
  "binary_set_ctor 0 False = Inl (invalid_argument msg_capacity_zero)
   \<and> capacity sample_set \<noteq> capacity binary_set_default
   \<and> op_and sample_set binary_set_default = Inl (invalid_argument msg_same_capacity)
   \<and> op_and_assign sample_set binary_set_default = (Inl (invalid_argument msg_same_capacity), sample_set)
   \<and> fst (op_or_assign sample_set binary_set_default) = Inl (invalid_argument msg_same_capacity)
   \<and> invalid_argument msg_same_capacity \<noteq> out_of_bounds
   \<and> snd (op_or_assign sample_set binary_set_default) = sample_set
   \<and> index_capacity_fld (bs_searcher_ctor 8) \<noteq> capacity binary_set_default
   \<and> searcher_add (bs_searcher_ctor 8) 5 binary_set_default
        = (Inl (invalid_argument msg_unexpected_capacity), bs_searcher_ctor 8)
   \<and> capacity binary_set_default = 0
   \<and> add binary_set_default 0 = (Inl (domain_error msg_domain), binary_set_default)
   \<and> capacity sample_set \<noteq> 0 \<and> capacity sample_set \<le> 8
   \<and> add sample_set 8 = (Inl (out_of_range msg_range), sample_set)
   \<and> fst (fill sample_wrapped) = Inl out_of_bounds"
proof -
  have h: "capacity sample_set \<noteq> capacity binary_set_default"
    "index_capacity_fld (bs_searcher_ctor 8) \<noteq> capacity binary_set_default"
    "capacity binary_set_default = 0"
    "capacity sample_set \<noteq> 0" "capacity sample_set \<le> 8"
    by code_simp+
  have w: "fst (fill sample_wrapped) = Inl out_of_bounds"
    by (simp add: fill_def sample_wrapped_def mask_last_def)
  from failures_reported [where c = 0 and f = False and a = sample_set and b = binary_set_default
      and sr = "bs_searcher_ctor 8" and bs = binary_set_default and v = 5
      and d = binary_set_default and e = 0 and s = sample_set and x = 8
      and y = "out_of_range msg_range"]
    failures_reported [where a = sample_set and b = binary_set_default
      and sr = "bs_searcher_ctor 8" and bs = binary_set_default and v = 5
      and y = "invalid_argument msg_same_capacity"]
    failures_reported [where s = sample_wrapped and y = out_of_bounds] h w
  show ?thesis
    by simp
qed

end
